theory Spec2Isabelle
  imports Main "HOL-Library.Word"
begin

unbundle bit_operations_syntax

section \<open>The in-memory file system node of samples/memfs/inode.go\<close>

text \<open>
  The theory embeds the type \<open>inode\<close> of \<open>samples/memfs/inode.go\<close> and its methods.
  Every method that mutates the receiver returns the updated node; every Go panic is a
  value of the type \<open>panic\<close>, returned as \<open>Inl\<close>. The clock dependency is made
  explicit: each mutating method calls \<open>clock.Now()\<close> exactly once, and the model takes
  that reading as the argument \<open>now\<close>. The mutex \<open>mu\<close> is not part of the state: the
  methods are modelled one call at a time, and the check that the mutex runs when an
  exclusive lock is released is the function \<open>checkInvariants\<close>. The receiver \<open>inode\<close> is
  the argument \<open>node\<close>; the parameters \<open>id\<close> and \<open>size\<close> are named \<open>ident\<close>, \<open>maxsize\<close>
  and \<open>newsize\<close>.
\<close>

subsection \<open>Go values\<close>

type_synonym byte = "8 word"
type_synonym uint64 = "64 word"
type_synonym InodeID = "64 word"
type_synonym DirOffset = "64 word"
type_synonym FileMode = "32 word"

text \<open>\<open>time.Time\<close> is opaque to this file: values are only stored and copied.\<close>

type_synonym time = int

text \<open>
  A Go slice is \<open>nil\<close> or holds a sequence; \<open>checkInvariants\<close> tells the two apart, so
  the fields \<open>entries\<close> and \<open>contents\<close> keep the difference. \<open>None\<close> is the nil slice.
  Each node owns its slices alone, so capacity and aliasing are not modelled.
\<close>

type_synonym 'a slice = "'a list option"

definition len :: "'a slice \<Rightarrow> nat" where
  "len s = (case s of None \<Rightarrow> 0 | Some xs \<Rightarrow> length xs)"

definition elems :: "'a slice \<Rightarrow> 'a list" where
  "elems s = (case s of None \<Rightarrow> [] | Some xs \<Rightarrow> xs)"

text \<open>\<open>append(s, ys...)\<close>: appending nothing returns \<open>s\<close> itself, nil or not.\<close>

definition append_slice :: "'a slice \<Rightarrow> 'a list \<Rightarrow> 'a slice" where
  "append_slice s ys = (if ys = [] then s else Some (elems s @ ys))"

datatype panic =
    NegativeLinkCount
  | UnexpectedMode
  | UnexpectedModeDir
  | NonNilContentsInDirectory
  | UnexpectedOffset
  | DuplicateName
  | NonNilEntriesInFile
  | UnexpectedSize
  | FindChildOnNonDirectory
  | UnknownChild
  | ReadDirOnNonDirectory
  | ReadAtOnDirectory
  | WriteAtOnDirectory
  | UnexpectedShortCopy
  | IndexOutOfRange
  | SliceBoundsOutOfRange
  | MakesliceLenOutOfRange
  | GrowsliceLenOutOfRange

text \<open>
  \<open>s[:n]\<close> and \<open>s[off:]\<close> with the run-time bounds check of Go. The source only
  slices within the length (never into spare capacity), so the bound is the length.
\<close>

definition slice_to :: "'a slice \<Rightarrow> int \<Rightarrow> panic + 'a slice" where
  "slice_to s n =
     (if n < 0 \<or> int (len s) < n then Inl SliceBoundsOutOfRange
      else Inr (map_option (take (nat n)) s))"

definition slice_from :: "'a slice \<Rightarrow> int \<Rightarrow> panic + 'a list" where
  "slice_from s off =
     (if off < 0 \<or> int (len s) < off then Inl SliceBoundsOutOfRange
      else Inr (drop (nat off) (elems s)))"

text \<open>
  The built-in \<open>copy(dst, src)\<close>: it overwrites the first \<open>min (len dst) (len src)\<close>
  elements of \<open>dst\<close> and returns that count together with the new \<open>dst\<close>.
\<close>

definition copy :: "'a list \<Rightarrow> 'a list \<Rightarrow> nat \<times> 'a list" where
  "copy dst src =
     (let n = min (length dst) (length src) in (n, take n src @ drop n dst))"

text \<open>
  The built-ins \<open>make([]byte, n)\<close> and \<open>append(s, padding...)\<close> on bytes. \<open>make\<close>
  panics with \<open>makeslice: len out of range\<close> when \<open>n\<close> is negative or more than the
  runtime provides, and returns \<open>n\<close> zero bytes otherwise; \<open>append\<close> of at least one byte
  panics with \<open>growslice: len out of range\<close> when the runtime does not provide a slice of
  the new length. Which lengths the runtime provides is decided by the platform and by
  the memory that is left, not by \<open>inode.go\<close>: it is the parameter \<open>can_alloc\<close> of every
  function that calls them. A call that the runtime ends for want of memory does not
  return either, so it is a panic of the model as well.
\<close>

definition make_bytes :: "(nat \<Rightarrow> bool) \<Rightarrow> int \<Rightarrow> panic + byte list" where
  "make_bytes can_alloc n =
     (if n < 0 \<or> \<not> can_alloc (nat n) then Inl MakesliceLenOutOfRange
      else Inr (replicate (nat n) 0))"

definition append_bytes ::
  "(nat \<Rightarrow> bool) \<Rightarrow> byte slice \<Rightarrow> byte list \<Rightarrow> panic + byte slice" where
  "append_bytes can_alloc s padding =
     (if padding \<noteq> [] \<and> \<not> can_alloc (len s + length padding)
      then Inl GrowsliceLenOutOfRange
      else Inr (append_slice s padding))"

subsection \<open>Directory entries and nodes\<close>

text \<open>
  Modelled from the spec: the enumeration \<open>fuseutil.DirentType\<close> is declared outside
  \<open>inode.go\<close>; the spec describes it as a directory-entry-type enumeration
  (unknown, file, directory, ...) with a distinguished unused value. \<open>DT_Unknown\<close> is
  that value; the remaining kinds are never inspected by \<open>inode.go\<close>.
\<close>

datatype DirentType = DT_Unknown | DT_File | DT_Directory | DT_Link | DT_Other nat

text \<open>
  \<open>fuseutil.Dirent\<close>, with the four fields \<open>inode.go\<close> reads and writes.
\<close>

record Dirent =
  Offset :: DirOffset
  Inode :: InodeID
  Name :: string
  Type :: DirentType

text \<open>
  \<open>fuse.InodeAttributes\<close>, restricted to the fields \<open>inode.go\<close> touches.
\<close>

record InodeAttributes =
  Size :: uint64
  Mode :: FileMode
  Mtime :: time
  Crtime :: time

record inode =
  dir :: bool
  linkCount :: int
  attributes :: InodeAttributes
  entries :: "Dirent slice"
  contents :: "byte slice"

definition ModeDir :: FileMode where
  "ModeDir = push_bit 31 1"

definition ModePerm :: FileMode where
  "ModePerm = 511"

definition newInode :: "time \<Rightarrow> InodeAttributes \<Rightarrow> inode" where
  "newInode now attrs =
     \<lparr> dir = (Mode attrs AND ModeDir \<noteq> 0),
       linkCount = 1,
       attributes = attrs\<lparr>Mtime := now, Crtime := now\<rparr>,
       entries = None,
       contents = None \<rparr>"

subsection \<open>checkInvariants\<close>

text \<open>
  The loop over \<open>inode.entries\<close> of \<open>checkInvariants\<close>: \<open>i\<close> is the index of the head
  of the remaining entries, \<open>childNames\<close> the set of names seen in used entries.
\<close>

fun check_entries :: "Dirent list \<Rightarrow> nat \<Rightarrow> string set \<Rightarrow> panic option" where
  "check_entries [] i childNames = None"
| "check_entries (e # es) i childNames =
     (if Offset e \<noteq> of_nat (i + 1) then Some UnexpectedOffset
      else if Type e \<noteq> DT_Unknown then
        (if Name e \<in> childNames then Some DuplicateName
         else check_entries es (Suc i) (insert (Name e) childNames))
      else check_entries es (Suc i) childNames)"

text \<open>\<open>None\<close>: every check passed; \<open>Some p\<close>: the process halts with panic \<open>p\<close>.\<close>

definition checkInvariants :: "inode \<Rightarrow> panic option" where
  "checkInvariants node =
     (if linkCount node < 0 then Some NegativeLinkCount
      else if Mode (attributes node) AND NOT (ModePerm OR ModeDir) \<noteq> 0 then Some UnexpectedMode
      else if dir node \<noteq> (Mode (attributes node) AND ModeDir = ModeDir) then Some UnexpectedModeDir
      else if dir node \<and> contents node \<noteq> None then Some NonNilContentsInDirectory
      else case (if dir node then check_entries (elems (entries node)) 0 {} else None) of
        Some p \<Rightarrow> Some p
      | None \<Rightarrow>
         (if \<not> dir node \<and> entries node \<noteq> None then Some NonNilEntriesInFile
          else if Size (attributes node) \<noteq> of_nat (len (contents node)) then Some UnexpectedSize
          else None))"

subsection \<open>Directory methods\<close>

text \<open>
  The \<open>range\<close> loop of \<open>findChild\<close> over the named results \<open>(i, ok)\<close>: \<open>k\<close> is the index
  of the head of the remaining entries and \<open>i\<close> the value the loop variable holds. When
  no entry matches, the function returns whatever \<open>i\<close> holds and \<open>ok = false\<close>.
\<close>

fun findChild_loop :: "Dirent list \<Rightarrow> string \<Rightarrow> nat \<Rightarrow> nat \<Rightarrow> nat \<times> bool" where
  "findChild_loop [] name k i = (i, False)"
| "findChild_loop (e # es) name k i =
     (if Name e = name then (k, True) else findChild_loop es name (Suc k) k)"

definition findChild :: "inode \<Rightarrow> string \<Rightarrow> panic + nat \<times> bool" where
  "findChild node name =
     (if \<not> dir node then Inl FindChildOnNonDirectory
      else Inr (findChild_loop (elems (entries node)) name 0 0))"

definition LookUpChild :: "inode \<Rightarrow> string \<Rightarrow> panic + InodeID \<times> bool" where
  "LookUpChild node name =
     (case findChild node name of
        Inl p \<Rightarrow> Inl p
      | Inr (index, ok) \<Rightarrow>
          if ok then
            (if index < len (entries node) then Inr (Inode (elems (entries node) ! index), True)
             else Inl IndexOutOfRange)
          else Inr (0, False))"

text \<open>\<open>Len\<close>: the number of used entries.\<close>

definition Len :: "inode \<Rightarrow> nat" where
  "Len node = length (filter (\<lambda>e. Type e \<noteq> DT_Unknown) (elems (entries node)))"

text \<open>
  The gap search of \<open>AddChild\<close>: the index of the first entry of type \<open>DT_Unknown\<close>,
  counting from \<open>k\<close>.
\<close>

fun find_gap :: "Dirent list \<Rightarrow> nat \<Rightarrow> nat option" where
  "find_gap [] k = None"
| "find_gap (e # es) k = (if Type e = DT_Unknown then Some k else find_gap es (Suc k))"

text \<open>The deferred function of \<open>AddChild\<close>: \<open>entries[index].Offset = index + 1\<close>.\<close>

definition set_offset :: "nat \<Rightarrow> Dirent list \<Rightarrow> Dirent list" where
  "set_offset index es = es[index := (es ! index)\<lparr>Offset := of_nat (index + 1)\<rparr>]"

definition AddChild :: "time \<Rightarrow> inode \<Rightarrow> InodeID \<Rightarrow> string \<Rightarrow> DirentType \<Rightarrow> inode" where
  "AddChild now node ident name dt =
     (let in1 = node\<lparr>attributes := (attributes node)\<lparr>Mtime := now\<rparr>\<rparr>;
          e = \<lparr>Offset = 0, Inode = ident, Name = name, Type = dt\<rparr>;
          es = elems (entries in1)
      in case find_gap es 0 of
           Some index \<Rightarrow> in1\<lparr>entries := Some (set_offset index (es[index := e]))\<rparr>
         | None \<Rightarrow> in1\<lparr>entries := Some (set_offset (length es) (es @ [e]))\<rparr>)"

text \<open>The value \<open>RemoveChild\<close> stores in slot \<open>i\<close>; the fields it omits are zero.\<close>

definition unused_entry :: "nat \<Rightarrow> Dirent" where
  "unused_entry i = \<lparr>Offset = of_nat (i + 1), Inode = 0, Name = [], Type = DT_Unknown\<rparr>"

definition RemoveChild :: "time \<Rightarrow> inode \<Rightarrow> string \<Rightarrow> panic + inode" where
  "RemoveChild now node name =
     (let in1 = node\<lparr>attributes := (attributes node)\<lparr>Mtime := now\<rparr>\<rparr> in
      case findChild in1 name of
        Inl p \<Rightarrow> Inl p
      | Inr (i, ok) \<Rightarrow>
          if \<not> ok then Inl UnknownChild
          else if i < len (entries in1)
            then Inr (in1\<lparr>entries := map_option (\<lambda>es. es[i := unused_entry i]) (entries in1)\<rparr>)
          else Inl IndexOutOfRange)"

text \<open>
  Modelled from the spec: \<open>fuseutil.AppendDirent\<close> lives outside \<open>inode.go\<close>. The spec
  calls it a serialization routine for one directory entry whose byte layout this code
  does not define, and says that \<open>ReadDir\<close> appends each used entry's serialized form to
  the output buffer. The layout is the parameter \<open>ser\<close>.
\<close>

definition AppendDirent :: "(Dirent \<Rightarrow> byte list) \<Rightarrow> byte list \<Rightarrow> Dirent \<Rightarrow> byte list" where
  "AppendDirent ser data e = data @ ser e"

text \<open>
  The loop of \<open>ReadDir\<close>, with \<open>i\<close> the loop variable and \<open>data\<close> the buffer built so
  far. The buffer is only measured and returned, so the nil buffer and the empty one
  are the same value here. \<open>offset\<close> and \<open>size\<close> (named \<open>maxsize\<close> below) are Go
  \<open>int\<close>s: indexing with a negative \<open>i\<close> and slicing with a negative \<open>size\<close> panic.
\<close>

function ReadDir_loop ::
  "(Dirent \<Rightarrow> byte list) \<Rightarrow> Dirent list \<Rightarrow> int \<Rightarrow> int \<Rightarrow> byte list \<Rightarrow> panic + byte list" where
  "ReadDir_loop ser es maxsize i data =
     (if i < int (length es) then
        (if i < 0 then Inl IndexOutOfRange
         else if Type (es ! nat i) = DT_Unknown then ReadDir_loop ser es maxsize (i + 1) data
         else if maxsize < int (length (AppendDirent ser data (es ! nat i))) then
           (if maxsize < 0 then Inl SliceBoundsOutOfRange
            else Inr (take (nat maxsize) (AppendDirent ser data (es ! nat i))))
         else ReadDir_loop ser es maxsize (i + 1) (AppendDirent ser data (es ! nat i)))
      else Inr data)"
  by pat_completeness auto
termination
  by (relation "measure (\<lambda>(ser, es, maxsize, i, data). nat (int (length es) - i))") auto

declare ReadDir_loop.simps [simp del]

definition ReadDir ::
  "(Dirent \<Rightarrow> byte list) \<Rightarrow> inode \<Rightarrow> int \<Rightarrow> int \<Rightarrow> panic + byte list" where
  "ReadDir ser node offset maxsize =
     (if \<not> dir node then Inl ReadDirOnNonDirectory
      else ReadDir_loop ser (elems (entries node)) maxsize offset [])"

subsection \<open>File methods\<close>

datatype error = EOF

text \<open>
  \<open>ReadAt\<close> assigns no field of the node, so the model returns no node. It returns the
  count \<open>n\<close>, the error, and the destination buffer \<open>p\<close> as \<open>copy\<close> left it.
\<close>

definition ReadAt :: "inode \<Rightarrow> byte list \<Rightarrow> int \<Rightarrow> panic + nat \<times> error option \<times> byte list" where
  "ReadAt node p off =
     (if dir node then Inl ReadAtOnDirectory
      else if int (len (contents node)) < off then Inr (0, Some EOF, p)
      else case slice_from (contents node) off of
             Inl pn \<Rightarrow> Inl pn
           | Inr src \<Rightarrow>
               (case copy p src of
                  (n, p') \<Rightarrow> Inr (n, if n < length p then Some EOF else None, p')))"

text \<open>
  Go's \<open>int\<close> is taken to be 64 bits wide. \<open>int(off) + len(p)\<close> wraps around in two's
  complement; no other arithmetic of the file can leave the range.
\<close>

definition int64_wrap :: "int \<Rightarrow> int" where
  "int64_wrap k = signed_take_bit 63 k"

text \<open>
  The block \<open>Ensure that the contents slice is long enough\<close> of \<open>WriteAt\<close>.
\<close>

definition ensure_len :: "(nat \<Rightarrow> bool) \<Rightarrow> inode \<Rightarrow> int \<Rightarrow> panic + inode" where
  "ensure_len can_alloc node newLen =
     (if int (len (contents node)) < newLen then
        (case make_bytes can_alloc (newLen - int (len (contents node))) of
           Inl pn \<Rightarrow> Inl pn
         | Inr padding \<Rightarrow>
             (case append_bytes can_alloc (contents node) padding of
                Inl pn \<Rightarrow> Inl pn
              | Inr c \<Rightarrow>
                  Inr (node\<lparr>contents := c,
                            attributes := (attributes node)\<lparr>Size := of_int newLen\<rparr>\<rparr>)))
      else Inr node)"

definition WriteAt ::
  "(nat \<Rightarrow> bool) \<Rightarrow> time \<Rightarrow> inode \<Rightarrow> byte list \<Rightarrow> int \<Rightarrow> panic + nat \<times> inode" where
  "WriteAt can_alloc now node p off =
     (if dir node then Inl WriteAtOnDirectory
      else
        case ensure_len can_alloc (node\<lparr>attributes := (attributes node)\<lparr>Mtime := now\<rparr>\<rparr>)
               (int64_wrap (off + int (length p))) of
          Inl pn \<Rightarrow> Inl pn
        | Inr in2 \<Rightarrow>
            (case slice_from (contents in2) off of
               Inl pn \<Rightarrow> Inl pn
             | Inr dst \<Rightarrow>
                 (case copy dst p of
                    (n, dst') \<Rightarrow>
                      if n \<noteq> length p then Inl UnexpectedShortCopy
                      else Inr (n, in2\<lparr>contents :=
                                         map_option (\<lambda>c. take (nat off) c @ dst')
                                           (contents in2)\<rparr>))))"

subsection \<open>SetAttributes\<close>

text \<open>The block \<open>if size != nil { ... }\<close> of \<open>SetAttributes\<close>, for \<open>*size = sz\<close>.\<close>

definition truncate_to :: "(nat \<Rightarrow> bool) \<Rightarrow> inode \<Rightarrow> uint64 \<Rightarrow> panic + inode" where
  "truncate_to can_alloc node sz =
     (let intSize = sint sz in
      case (if intSize \<le> int (len (contents node)) then slice_to (contents node) intSize
            else (case make_bytes can_alloc (intSize - int (len (contents node))) of
                    Inl p \<Rightarrow> Inl p
                  | Inr padding \<Rightarrow> append_bytes can_alloc (contents node) padding)) of
        Inl p \<Rightarrow> Inl p
      | Inr c \<Rightarrow> Inr (node\<lparr>contents := c, attributes := (attributes node)\<lparr>Size := sz\<rparr>\<rparr>))"

definition SetAttributes ::
  "(nat \<Rightarrow> bool) \<Rightarrow> time \<Rightarrow> inode \<Rightarrow> uint64 option \<Rightarrow> FileMode option \<Rightarrow> time option
     \<Rightarrow> panic + inode" where
  "SetAttributes can_alloc now node newsize mode mtime =
     (let in1 = node\<lparr>attributes := (attributes node)\<lparr>Mtime := now\<rparr>\<rparr> in
      case (case newsize of None \<Rightarrow> Inr in1 | Some sz \<Rightarrow> truncate_to can_alloc in1 sz) of
        Inl p \<Rightarrow> Inl p
      | Inr in2 \<Rightarrow>
          let in3 = (case mode of None \<Rightarrow> in2
                     | Some m \<Rightarrow> in2\<lparr>attributes := (attributes in2)\<lparr>Mode := m\<rparr>\<rparr>);
              in4 = (case mtime of None \<Rightarrow> in3
                     | Some t \<Rightarrow> in3\<lparr>attributes := (attributes in3)\<lparr>Mtime := t\<rparr>\<rparr>)
          in Inr in4)"

subsection \<open>Release of the exclusive lock\<close>

text \<open>
  Modelled from the spec: the type \<open>syncutil.InvariantMutex\<close> is declared outside
  \<open>inode.go\<close>, which hands it \<open>checkInvariants\<close> in \<open>newInode\<close>. The spec says that upon
  release of every exclusive acquisition the guard re-validates all invariants and that a
  violation terminates the process. \<open>Unlock\<close> is that release, and \<open>SetAttributes_locked\<close> a
  call of \<open>SetAttributes\<close> under the exclusive lock: a panic of either step ends the call.
\<close>

definition Unlock :: "inode \<Rightarrow> panic + inode" where
  "Unlock node = (case checkInvariants node of Some p \<Rightarrow> Inl p | None \<Rightarrow> Inr node)"

definition SetAttributes_locked ::
  "(nat \<Rightarrow> bool) \<Rightarrow> time \<Rightarrow> inode \<Rightarrow> uint64 option \<Rightarrow> FileMode option \<Rightarrow> time option
     \<Rightarrow> panic + inode" where
  "SetAttributes_locked can_alloc now node newsize mode mtime =
     (case SetAttributes can_alloc now node newsize mode mtime of
        Inl p \<Rightarrow> Inl p
      | Inr node' \<Rightarrow> Unlock node')"

subsection \<open>Sequences of directory mutations\<close>

text \<open>
  A sequence of \<open>AddChild\<close> and \<open>RemoveChild\<close> calls on one node, each with the clock
  reading it sees. A panic ends the run.
\<close>

datatype dir_op = OpAddChild time InodeID string DirentType | OpRemoveChild time string

fun apply_op :: "inode \<Rightarrow> dir_op \<Rightarrow> panic + inode" where
  "apply_op node (OpAddChild now ident name dt) = Inr (AddChild now node ident name dt)"
| "apply_op node (OpRemoveChild now name) = RemoveChild now node name"

fun run_ops :: "inode \<Rightarrow> dir_op list \<Rightarrow> panic + inode" where
  "run_ops node [] = Inr node"
| "run_ops node (op # ops) =
     (case apply_op node op of Inl p \<Rightarrow> Inl p | Inr node' \<Rightarrow> run_ops node' ops)"

fun removed_names :: "dir_op list \<Rightarrow> string set" where
  "removed_names [] = {}"
| "removed_names (OpAddChild now ident name dt # ops) = removed_names ops"
| "removed_names (OpRemoveChild now name # ops) = insert name (removed_names ops)"

subsection \<open>Predicates on the entry table\<close>

text \<open>The invariant \<open>For each i, entries[i].Offset == i+1\<close> of the field \<open>entries\<close>.\<close>

definition offsets_ok :: "Dirent list \<Rightarrow> bool" where
  "offsets_ok es = (\<forall>i<length es. Offset (es ! i) = of_nat (i + 1))"

text \<open>
  Unused entries carry the empty name: \<open>RemoveChild\<close> stores them so, and \<open>AddChild\<close>
  with a type other than \<open>DT_Unknown\<close> never creates an unused entry.
\<close>

definition holes_blank :: "Dirent list \<Rightarrow> bool" where
  "holes_blank es = (\<forall>e\<in>set es. Type e = DT_Unknown \<longrightarrow> Name e = [])"

definition used_named :: "string \<Rightarrow> Dirent \<Rightarrow> bool" where
  "used_named name e = (Name e = name \<and> Type e \<noteq> DT_Unknown)"

fun adds_used :: "dir_op \<Rightarrow> bool" where
  "adds_used (OpAddChild now ident name dt) = (dt \<noteq> DT_Unknown)"
| "adds_used (OpRemoveChild now name) = True"

subsection \<open>Sample nodes\<close>

definition dir_attrs :: InodeAttributes where
  "dir_attrs = \<lparr>Size = 0, Mode = ModeDir OR 493, Mtime = 0, Crtime = 0\<rparr>"

definition file_attrs :: InodeAttributes where
  "file_attrs = \<lparr>Size = 0, Mode = 420, Mtime = 0, Crtime = 0\<rparr>"

definition empty_dir :: inode where
  "empty_dir = newInode 0 dir_attrs"

definition empty_file :: inode where
  "empty_file = newInode 0 file_attrs"

text \<open>A directory whose children are \<open>a\<close> and \<open>c\<close>, with an unused slot between them.\<close>

definition gap_dir :: inode where
  "gap_dir =
     \<lparr> dir = True, linkCount = 1,
       attributes = \<lparr>Size = 0, Mode = ModeDir OR 493, Mtime = 3, Crtime = 0\<rparr>,
       entries = Some
         [\<lparr>Offset = 1, Inode = 11, Name = ''a'', Type = DT_File\<rparr>,
          \<lparr>Offset = 2, Inode = 0, Name = [], Type = DT_Unknown\<rparr>,
          \<lparr>Offset = 3, Inode = 13, Name = ''c'', Type = DT_Directory\<rparr>],
       contents = None \<rparr>"

text \<open>
  A directory whose only child has the empty name, behind an unused slot: the state after
  \<open>AddChild a\<close>, \<open>AddChild\<close> of the empty name and \<open>RemoveChild a\<close>.
\<close>

definition blank_dir :: inode where
  "blank_dir =
     \<lparr> dir = True, linkCount = 1,
       attributes = \<lparr>Size = 0, Mode = ModeDir OR 493, Mtime = 3, Crtime = 0\<rparr>,
       entries = Some
         [\<lparr>Offset = 1, Inode = 0, Name = [], Type = DT_Unknown\<rparr>,
          \<lparr>Offset = 2, Inode = 12, Name = [], Type = DT_File\<rparr>],
       contents = None \<rparr>"

text \<open>
  The runtime provides what growing a byte slice from \<open>old\<close> to \<open>new\<close> bytes asks for:
  the padding from \<open>make\<close> and the grown slice from \<open>append\<close>.
\<close>

definition can_grow :: "(nat \<Rightarrow> bool) \<Rightarrow> nat \<Rightarrow> nat \<Rightarrow> bool" where
  "can_grow can_alloc old new = (can_alloc (new - old) \<and> can_alloc new)"

text \<open>A runtime that provides byte slices of at most 1024 bytes.\<close>

definition small_heap :: "nat \<Rightarrow> bool" where
  "small_heap n = (n \<le> 1024)"

text \<open>A directory without unused slots.\<close>

definition full_dir :: inode where
  "full_dir =
     \<lparr> dir = True, linkCount = 1,
       attributes = \<lparr>Size = 0, Mode = ModeDir OR 493, Mtime = 2, Crtime = 0\<rparr>,
       entries = Some
         [\<lparr>Offset = 1, Inode = 11, Name = ''a'', Type = DT_File\<rparr>,
          \<lparr>Offset = 2, Inode = 12, Name = ''b'', Type = DT_File\<rparr>],
       contents = None \<rparr>"

text \<open>
  \<open>full_dir\<close> after \<open>RemoveChild a\<close>, \<open>AddChild x\<close> and \<open>AddChild y\<close>, at clock readings
  5, 6 and 7.
\<close>

definition full_dir_after :: inode where
  "full_dir_after =
     \<lparr> dir = True, linkCount = 1,
       attributes = \<lparr>Size = 0, Mode = ModeDir OR 493, Mtime = 7, Crtime = 0\<rparr>,
       entries = Some
         [\<lparr>Offset = 1, Inode = 21, Name = ''x'', Type = DT_File\<rparr>,
          \<lparr>Offset = 2, Inode = 12, Name = ''b'', Type = DT_File\<rparr>,
          \<lparr>Offset = 3, Inode = 22, Name = ''y'', Type = DT_Link\<rparr>],
       contents = None \<rparr>"

subsection \<open>Listings and pages\<close>

text \<open>
  The used entries from position \<open>c\<close> on, in position order, and the concatenation of
  the serialized forms of a list of entries.
\<close>

definition listed :: "Dirent list \<Rightarrow> nat \<Rightarrow> Dirent list" where
  "listed es c = filter (\<lambda>e. Type e \<noteq> DT_Unknown) (drop c es)"

definition serial :: "(Dirent \<Rightarrow> byte list) \<Rightarrow> Dirent list \<Rightarrow> byte list" where
  "serial ser es = concat (map ser es)"

text \<open>
  What a reader of a page of \<open>n\<close> bytes can consume: the longest run of leading entries
  whose serialized forms fit into \<open>n\<close> bytes. A last entry cut by the trimming of
  \<open>ReadDir\<close> is not among them.
\<close>

fun whole_entries :: "(Dirent \<Rightarrow> byte list) \<Rightarrow> nat \<Rightarrow> Dirent list \<Rightarrow> Dirent list" where
  "whole_entries ser n [] = []"
| "whole_entries ser n (e # es) =
     (if length (ser e) \<le> n then e # whole_entries ser (n - length (ser e)) es else [])"

text \<open>
  The cursor a reader resumes with after consuming \<open>page\<close>, a page read at cursor \<open>c\<close>:
  the \<open>Offset\<close> field of the last entry it consumed, and \<open>c\<close> again if it consumed none.
\<close>

definition next_cursor :: "nat \<Rightarrow> Dirent list \<Rightarrow> nat" where
  "next_cursor c page = (if page = [] then c else unat (Offset (last page)))"

text \<open>The names a sequence of calls adds or removes, and the entries with other names.\<close>

fun touched_names :: "dir_op list \<Rightarrow> string set" where
  "touched_names [] = {}"
| "touched_names (OpAddChild now ident name dt # ops) = insert name (touched_names ops)"
| "touched_names (OpRemoveChild now name # ops) = insert name (touched_names ops)"

definition untouched :: "dir_op list \<Rightarrow> Dirent \<Rightarrow> bool" where
  "untouched ops e = (Name e \<notin> touched_names ops)"

text \<open>A serialization of three bytes per entry, for the examples.\<close>

definition sample_ser :: "Dirent \<Rightarrow> byte list" where
  "sample_ser e = [ucast (Offset e), ucast (Inode e), of_nat (length (Name e))]"

subsection \<open>File contents after a write\<close>

text \<open>
  The bytes of a file after \<open>p\<close> is written at offset \<open>off\<close> over the contents \<open>c\<close>: the
  first \<open>off\<close> bytes of \<open>c\<close>, extended by zero bytes where \<open>c\<close> is shorter, then \<open>p\<close>, then
  what \<open>c\<close> holds beyond the end of \<open>p\<close>.
\<close>

definition written :: "byte list \<Rightarrow> byte list \<Rightarrow> nat \<Rightarrow> byte list" where
  "written c p off =
     take off (c @ replicate (off + length p - length c) 0) @ p @ drop (off + length p) c"

text \<open>A file of five bytes, and the empty file after \<open>[1, 2, 3]\<close> is written at offset 2.\<close>

definition sample_file :: inode where
  "sample_file =
     \<lparr> dir = False, linkCount = 1,
       attributes = \<lparr>Size = 5, Mode = 420, Mtime = 0, Crtime = 0\<rparr>,
       entries = None,
       contents = Some [1, 2, 3, 4, 5] \<rparr>"

definition written_file :: inode where
  "written_file =
     \<lparr> dir = False, linkCount = 1,
       attributes = \<lparr>Size = 5, Mode = 420, Mtime = 5, Crtime = 0\<rparr>,
       entries = None,
       contents = Some [0, 0, 1, 2, 3] \<rparr>"

section \<open>Properties of the directory entry table\<close>

subsection \<open>Slices\<close>

lemma elems_simps [simp]: "elems None = []" "elems (Some xs) = xs"
  by (simp_all add: elems_def)

lemma len_elems: "len s = length (elems s)"
  by (cases s) (simp_all add: len_def)

subsection \<open>The two searches\<close>

lemma find_gap_first:
  "i < length es \<Longrightarrow> Type (es ! i) = DT_Unknown \<Longrightarrow> \<forall>j<i. Type (es ! j) \<noteq> DT_Unknown
     \<Longrightarrow> find_gap es k = Some (k + i)"
proof (induction es arbitrary: i k)
  case Nil
  then show ?case by simp
next
  case (Cons e es)
  show ?case
  proof (cases i)
    case 0
    with Cons.prems show ?thesis by simp
  next
    case (Suc m)
    from Cons.prems Suc have "Type e \<noteq> DT_Unknown" by auto
    moreover from Cons.prems Suc have "find_gap es (Suc k) = Some (Suc k + m)"
      by (intro Cons.IH) auto
    ultimately show ?thesis using Suc by simp
  qed
qed

lemma find_gap_none:
  "\<forall>e\<in>set es. Type e \<noteq> DT_Unknown \<Longrightarrow> find_gap es k = None"
  by (induction es arbitrary: k) auto

lemma find_gap_Some:
  "find_gap es k = Some m \<Longrightarrow>
     \<exists>i<length es. m = k + i \<and> Type (es ! i) = DT_Unknown \<and> (\<forall>j<i. Type (es ! j) \<noteq> DT_Unknown)"
proof (induction es arbitrary: k)
  case Nil
  then show ?case by simp
next
  case (Cons e es)
  show ?case
  proof (cases "Type e = DT_Unknown")
    case True
    with Cons.prems show ?thesis by (intro exI [of _ 0]) simp
  next
    case False
    with Cons.prems have "find_gap es (Suc k) = Some m" by simp
    from Cons.IH [OF this] obtain i where i: "i < length es" "m = Suc k + i"
      "Type (es ! i) = DT_Unknown" "\<forall>j<i. Type (es ! j) \<noteq> DT_Unknown" by blast
    have "\<forall>j<Suc i. Type ((e # es) ! j) \<noteq> DT_Unknown"
      using False i(4) by (auto simp: nth_Cons split: nat.splits)
    with i show ?thesis by (intro exI [of _ "Suc i"]) simp
  qed
qed

lemma find_gap_None:
  "find_gap es k = None \<Longrightarrow> \<forall>e\<in>set es. Type e \<noteq> DT_Unknown"
  by (induction es arbitrary: k) (auto split: if_splits)

lemma findChild_loop_first:
  "i < length es \<Longrightarrow> Name (es ! i) = name \<Longrightarrow> \<forall>j<i. Name (es ! j) \<noteq> name
     \<Longrightarrow> findChild_loop es name k c = (k + i, True)"
proof (induction es arbitrary: i k c)
  case Nil
  then show ?case by simp
next
  case (Cons e es)
  show ?case
  proof (cases i)
    case 0
    with Cons.prems show ?thesis by simp
  next
    case (Suc m)
    from Cons.prems Suc have "Name e \<noteq> name" by auto
    moreover from Cons.prems Suc have "findChild_loop es name (Suc k) k = (Suc k + m, True)"
      by (intro Cons.IH) auto
    ultimately show ?thesis using Suc by simp
  qed
qed

lemma findChild_loop_none:
  "\<forall>e\<in>set es. Name e \<noteq> name \<Longrightarrow> snd (findChild_loop es name k c) = False"
  by (induction es arbitrary: k c) auto

lemma findChild_loop_found:
  "findChild_loop es name k c = (m, True) \<Longrightarrow>
     \<exists>i<length es. m = k + i \<and> Name (es ! i) = name \<and> (\<forall>j<i. Name (es ! j) \<noteq> name)"
proof (induction es arbitrary: k c)
  case Nil
  then show ?case by simp
next
  case (Cons e es)
  show ?case
  proof (cases "Name e = name")
    case True
    with Cons.prems show ?thesis by (intro exI [of _ 0]) simp
  next
    case False
    with Cons.prems have "findChild_loop es name (Suc k) k = (m, True)" by simp
    from Cons.IH [OF this] obtain i where i: "i < length es" "m = Suc k + i"
      "Name (es ! i) = name" "\<forall>j<i. Name (es ! j) \<noteq> name" by blast
    have "\<forall>j<Suc i. Name ((e # es) ! j) \<noteq> name"
      using False i(4) by (auto simp: nth_Cons split: nat.splits)
    with i show ?thesis by (intro exI [of _ "Suc i"]) simp
  qed
qed

subsection \<open>One call of AddChild or RemoveChild\<close>

lemma AddChild_gap:
  assumes "i < length (elems (entries node))" "Type (elems (entries node) ! i) = DT_Unknown"
    "\<forall>j<i. Type (elems (entries node) ! j) \<noteq> DT_Unknown"
  shows "AddChild now node ident name dt =
     node\<lparr>attributes := (attributes node)\<lparr>Mtime := now\<rparr>,
          entries := Some ((elems (entries node))
             [i := \<lparr>Offset = of_nat (i + 1), Inode = ident, Name = name, Type = dt\<rparr>])\<rparr>"
proof -
  have "find_gap (elems (entries node)) 0 = Some i"
    using find_gap_first [OF assms, of 0] by simp
  then show ?thesis using assms(1)
    by (simp add: AddChild_def set_offset_def Let_def)
qed

lemma AddChild_append:
  assumes "\<forall>e\<in>set (elems (entries node)). Type e \<noteq> DT_Unknown"
  shows "AddChild now node ident name dt =
     node\<lparr>attributes := (attributes node)\<lparr>Mtime := now\<rparr>,
          entries := Some (elems (entries node) @
             [\<lparr>Offset = of_nat (length (elems (entries node)) + 1), Inode = ident,
               Name = name, Type = dt\<rparr>])\<rparr>"
proof -
  have "find_gap (elems (entries node)) 0 = None"
    using find_gap_none [OF assms] .
  then show ?thesis
    by (simp add: AddChild_def set_offset_def Let_def)
qed

lemma AddChild_other_fields:
  "attributes (AddChild now node ident name dt) = (attributes node)\<lparr>Mtime := now\<rparr>"
  "dir (AddChild now node ident name dt) = dir node"
  "linkCount (AddChild now node ident name dt) = linkCount node"
  "contents (AddChild now node ident name dt) = contents node"
  by (simp_all add: AddChild_def Let_def split: option.splits)

lemma AddChild_entries_cases:
  fixes node now ident name dt
  defines "es \<equiv> elems (entries node)"
  defines "v \<equiv> \<lambda>i. \<lparr>Offset = of_nat (i + 1), Inode = ident, Name = name, Type = dt\<rparr>"
  shows "(\<exists>i<length es. Type (es ! i) = DT_Unknown \<and>
            entries (AddChild now node ident name dt) = Some (es[i := v i]))
       \<or> ((\<forall>x\<in>set es. Type x \<noteq> DT_Unknown) \<and>
            entries (AddChild now node ident name dt) = Some (es @ [v (length es)]))"
proof (cases "find_gap es 0")
  case None
  then have all: "\<forall>x\<in>set es. Type x \<noteq> DT_Unknown" by (rule find_gap_None)
  then show ?thesis
    using AddChild_append [of node now ident name dt] by (simp add: es_def v_def)
next
  case (Some m)
  from find_gap_Some [OF this] obtain i where i: "i < length es" "Type (es ! i) = DT_Unknown"
    "\<forall>j<i. Type (es ! j) \<noteq> DT_Unknown" by auto
  then have "entries (AddChild now node ident name dt) = Some (es[i := v i])"
    using AddChild_gap [of i node now ident name dt] by (simp add: es_def v_def)
  with i show ?thesis by blast
qed

lemma RemoveChild_found:
  assumes "dir node" "i < length (elems (entries node))" "Name (elems (entries node) ! i) = name"
    "\<forall>j<i. Name (elems (entries node) ! j) \<noteq> name"
  shows "RemoveChild now node name =
     Inr (node\<lparr>attributes := (attributes node)\<lparr>Mtime := now\<rparr>,
               entries := Some ((elems (entries node))[i := unused_entry i])\<rparr>)"
proof -
  have "findChild_loop (elems (entries node)) name 0 0 = (i, True)"
    using findChild_loop_first [OF assms(2-4), of 0 0] by simp
  moreover from assms(2) obtain es where "entries node = Some es"
    by (cases "entries node") auto
  ultimately show ?thesis using assms(1,2)
    by (simp add: RemoveChild_def findChild_def Let_def len_elems)
qed

lemma RemoveChild_missing:
  assumes "dir node" "\<forall>e\<in>set (elems (entries node)). Name e \<noteq> name"
  shows "RemoveChild now node name = Inl UnknownChild"
proof -
  obtain m where "findChild_loop (elems (entries node)) name 0 0 = (m, False)"
    using findChild_loop_none [OF assms(2), of 0 0]
    by (cases "findChild_loop (elems (entries node)) name 0 0") auto
  then show ?thesis using assms(1)
    by (simp add: RemoveChild_def findChild_def Let_def)
qed

lemma RemoveChild_Inr_cases:
  assumes "RemoveChild now node name = Inr node'"
  shows "\<exists>i<length (elems (entries node)). Name (elems (entries node) ! i) = name \<and>
           entries node' = Some ((elems (entries node))[i := unused_entry i])"
proof -
  from assms have d: "dir node"
    by (auto simp: RemoveChild_def findChild_def Let_def split: if_splits)
  obtain m ok where f: "findChild_loop (elems (entries node)) name 0 0 = (m, ok)"
    by (cases "findChild_loop (elems (entries node)) name 0 0") auto
  with assms d have ok: "ok"
    by (auto simp: RemoveChild_def findChild_def Let_def split: if_splits)
  from findChild_loop_found [OF f [unfolded ok [THEN eqTrueI]]] obtain i where
    i: "i < length (elems (entries node))" "Name (elems (entries node) ! i) = name"
      "\<forall>j<i. Name (elems (entries node) ! j) \<noteq> name" by auto
  from RemoveChild_found [OF d i, of now] assms
  have "entries node' = Some ((elems (entries node))[i := unused_entry i])" by auto
  with i show ?thesis by blast
qed

text \<open>
  Claim C2. \<open>AddChild\<close> sets the modification time to the clock reading and leaves the
  other fields of the node alone. If the entry table has an unused slot, and \<open>i\<close> is the
  lowest index of one, the table afterwards is the old one with slot \<open>i\<close> overwritten by
  the new entry; if it has none, the table is the old one with the new entry appended.
  Either way the new entry carries \<open>Offset = index + 1\<close> for the index it ends up at, and
  every other slot is as before. (The property does not need \<open>dt \<noteq> DT_Unknown\<close>.)
\<close>

theorem AddChild_fills_first_gap_or_appends:
  "attributes (AddChild now node ident name dt) = (attributes node)\<lparr>Mtime := now\<rparr>
   \<and> dir (AddChild now node ident name dt) = dir node
   \<and> linkCount (AddChild now node ident name dt) = linkCount node
   \<and> contents (AddChild now node ident name dt) = contents node
   \<and> (i < length (elems (entries node)) \<and> Type (elems (entries node) ! i) = DT_Unknown
        \<and> (\<forall>j<i. Type (elems (entries node) ! j) \<noteq> DT_Unknown)
      \<longrightarrow> entries (AddChild now node ident name dt) =
            Some ((elems (entries node))
                    [i := \<lparr>Offset = of_nat (i + 1), Inode = ident, Name = name, Type = dt\<rparr>]))
   \<and> ((\<forall>x\<in>set (elems (entries node)). Type x \<noteq> DT_Unknown)
      \<longrightarrow> entries (AddChild now node ident name dt) =
            Some (elems (entries node) @
                    [\<lparr>Offset = of_nat (length (elems (entries node)) + 1), Inode = ident,
                      Name = name, Type = dt\<rparr>]))"
proof -
  have "entries (AddChild now node ident name dt) =
      Some ((elems (entries node))
              [i := \<lparr>Offset = of_nat (i + 1), Inode = ident, Name = name, Type = dt\<rparr>])"
    if "i < length (elems (entries node))" "Type (elems (entries node) ! i) = DT_Unknown"
      "\<forall>j<i. Type (elems (entries node) ! j) \<noteq> DT_Unknown"
    using AddChild_gap [OF that] by simp
  moreover have "entries (AddChild now node ident name dt) =
      Some (elems (entries node) @ [\<lparr>Offset = of_nat (length (elems (entries node)) + 1),
           Inode = ident, Name = name, Type = dt\<rparr>])"
    if "\<forall>x\<in>set (elems (entries node)). Type x \<noteq> DT_Unknown"
    using AddChild_append [OF that] by simp
  ultimately show ?thesis
    using AddChild_other_fields [of now node ident name dt] by blast
qed

theorem AddChild_fills_first_gap_or_appends_witness:
  "(1 < length (elems (entries gap_dir)) \<and> Type (elems (entries gap_dir) ! 1) = DT_Unknown
      \<and> list_all (\<lambda>x. Type x \<noteq> DT_Unknown) (take 1 (elems (entries gap_dir))))
   \<and> entries (AddChild 9 gap_dir 14 ''d'' DT_File) =
       Some [\<lparr>Offset = 1, Inode = 11, Name = ''a'', Type = DT_File\<rparr>,
             \<lparr>Offset = 2, Inode = 14, Name = ''d'', Type = DT_File\<rparr>,
             \<lparr>Offset = 3, Inode = 13, Name = ''c'', Type = DT_Directory\<rparr>]
   \<and> list_all (\<lambda>x. Type x \<noteq> DT_Unknown) (elems (entries full_dir))
   \<and> entries (AddChild 9 full_dir 14 ''d'' DT_File) =
       Some [\<lparr>Offset = 1, Inode = 11, Name = ''a'', Type = DT_File\<rparr>,
             \<lparr>Offset = 2, Inode = 12, Name = ''b'', Type = DT_File\<rparr>,
             \<lparr>Offset = 3, Inode = 14, Name = ''d'', Type = DT_File\<rparr>]"
proof -
  have g: "1 < length (elems (entries gap_dir)) \<and> Type (elems (entries gap_dir) ! 1) = DT_Unknown
      \<and> (\<forall>j<1. Type (elems (entries gap_dir) ! j) \<noteq> DT_Unknown)"
    by (simp add: gap_dir_def)
  have f: "\<forall>x\<in>set (elems (entries full_dir)). Type x \<noteq> DT_Unknown"
    by (simp add: full_dir_def)
  from g AddChild_fills_first_gap_or_appends [of 9 gap_dir 14 "''d''" DT_File 1]
  have "entries (AddChild 9 gap_dir 14 ''d'' DT_File) =
      Some ((elems (entries gap_dir))
              [1 := \<lparr>Offset = of_nat (1 + 1), Inode = 14, Name = ''d'', Type = DT_File\<rparr>])"
    by blast
  moreover from f AddChild_fills_first_gap_or_appends [of 9 full_dir 14 "''d''" DT_File 0]
  have "entries (AddChild 9 full_dir 14 ''d'' DT_File) =
      Some (elems (entries full_dir) @
              [\<lparr>Offset = of_nat (length (elems (entries full_dir)) + 1), Inode = 14,
                Name = ''d'', Type = DT_File\<rparr>])"
    by blast
  ultimately show ?thesis using g f
    by (simp add: gap_dir_def full_dir_def)
qed

text \<open>
  What \<open>RemoveChild name\<close> does on a directory, in terms of the scan of \<open>findChild\<close>, which
  compares names and nothing else: it panics with \<open>Unknown child\<close> when no slot of the
  table, used or not, carries the name; otherwise the first slot that carries it, at
  index \<open>i\<close>, is overwritten by an entry of type \<open>DT_Unknown\<close> with \<open>Offset = i + 1\<close>,
  zero inode and empty name, the modification time is refreshed, and nothing else
  changes.
\<close>

lemma RemoveChild_first_slot:
  "dir node \<Longrightarrow>
     ((\<forall>e\<in>set (elems (entries node)). Name e \<noteq> name)
        \<longrightarrow> RemoveChild now node name = Inl UnknownChild)
   \<and> (i < length (elems (entries node)) \<and> Name (elems (entries node) ! i) = name
        \<and> (\<forall>j<i. Name (elems (entries node) ! j) \<noteq> name)
        \<longrightarrow> RemoveChild now node name =
              Inr (node\<lparr>attributes := (attributes node)\<lparr>Mtime := now\<rparr>,
                        entries := Some ((elems (entries node))
                          [i := \<lparr>Offset = of_nat (i + 1), Inode = 0, Name = [],
                                 Type = DT_Unknown\<rparr>])\<rparr>))"
  using RemoveChild_found [of node i name now] RemoveChild_missing [of node name now]
  by (simp add: unused_entry_def)

lemma run_ops_blank_dir:
  "run_ops empty_dir
     [OpAddChild 1 11 ''a'' DT_File, OpAddChild 2 12 [] DT_File, OpRemoveChild 3 ''a'']
   = Inr blank_dir"
  by (simp add: empty_dir_def newInode_def dir_attrs_def blank_dir_def ModeDir_def
      RemoveChild_def findChild_def AddChild_def set_offset_def unused_entry_def len_def Let_def)

lemma checkInvariants_blank_dir: "checkInvariants blank_dir = None"
  by (simp add: checkInvariants_def blank_dir_def ModeDir_def ModePerm_def len_def)

text \<open>
  Claim C3 is what the comments of \<open>RemoveChild\<close> and of the field \<open>entries\<close> promise, and the
  code breaks it at the empty name. \<open>findChild\<close> has no test of the entry type, so the
  unused slot that \<open>RemoveChild\<close> leaves behind, whose name is empty, counts as an entry
  with the empty name. The directory \<open>blank_dir\<close> is reached from the empty directory by
  \<open>AddChild a\<close>, \<open>AddChild\<close> of the empty name and \<open>RemoveChild a\<close>, and it passes
  \<open>checkInvariants\<close>; its child with the empty name sits at index 1, behind the unused slot
  at index 0. \<open>RemoveChild\<close> of the empty name meets the unused slot first, stores the
  unused marker there again and returns: the child at index 1 is still in the table, in
  use, under its name. On \<open>gap_dir\<close>, where no child has the empty name, the same call does
  not panic either.
\<close>

theorem RemoveChild_empty_name_keeps_child:
  "run_ops empty_dir
     [OpAddChild 1 11 ''a'' DT_File, OpAddChild 2 12 [] DT_File, OpRemoveChild 3 ''a'']
   = Inr blank_dir
   \<and> checkInvariants blank_dir = None
   \<and> elems (entries blank_dir) ! 1 = \<lparr>Offset = 2, Inode = 12, Name = [], Type = DT_File\<rparr>
   \<and> RemoveChild 9 blank_dir [] =
       Inr (blank_dir\<lparr>attributes := (attributes blank_dir)\<lparr>Mtime := 9\<rparr>\<rparr>)
   \<and> \<not> (\<exists>e\<in>set (elems (entries gap_dir)). Name e = [] \<and> Type e \<noteq> DT_Unknown)
   \<and> RemoveChild 9 gap_dir [] =
       Inr (gap_dir\<lparr>attributes := (attributes gap_dir)\<lparr>Mtime := 9\<rparr>\<rparr>)"
proof -
  have "elems (entries blank_dir) ! 1 = \<lparr>Offset = 2, Inode = 12, Name = [], Type = DT_File\<rparr>"
    by (simp add: blank_dir_def)
  moreover have "RemoveChild 9 blank_dir [] =
       Inr (blank_dir\<lparr>attributes := (attributes blank_dir)\<lparr>Mtime := 9\<rparr>\<rparr>)"
    by (simp add: RemoveChild_def findChild_def blank_dir_def unused_entry_def len_def Let_def)
  moreover have "\<not> (\<exists>e\<in>set (elems (entries gap_dir)). Name e = [] \<and> Type e \<noteq> DT_Unknown)"
    by (simp add: gap_dir_def)
  moreover have "RemoveChild 9 gap_dir [] =
       Inr (gap_dir\<lparr>attributes := (attributes gap_dir)\<lparr>Mtime := 9\<rparr>\<rparr>)"
    by (simp add: RemoveChild_def findChild_def gap_dir_def unused_entry_def len_def Let_def)
  ultimately show ?thesis using run_ops_blank_dir checkInvariants_blank_dir by simp
qed

subsection \<open>Sequences of AddChild and RemoveChild\<close>

lemma offsets_ok_update:
  "offsets_ok es \<Longrightarrow> Offset v = of_nat (i + 1) \<Longrightarrow> offsets_ok (es[i := v])"
  by (cases "i < length es") (auto simp: offsets_ok_def nth_list_update)

lemma offsets_ok_snoc:
  "offsets_ok es \<Longrightarrow> Offset v = of_nat (length es + 1) \<Longrightarrow> offsets_ok (es @ [v])"
  by (auto simp: offsets_ok_def nth_append less_Suc_eq)

lemma apply_op_step:
  assumes "apply_op node op = Inr node'" "offsets_ok (elems (entries node))"
  shows "offsets_ok (elems (entries node'))
       \<and> length (elems (entries node)) \<le> length (elems (entries node'))
       \<and> (\<forall>i<length (elems (entries node)).
             Type (elems (entries node) ! i) \<noteq> DT_Unknown
               \<and> Name (elems (entries node) ! i) \<notin> removed_names [op]
             \<longrightarrow> elems (entries node') ! i = elems (entries node) ! i)"
proof (cases op)
  case (OpAddChild now ident name dt)
  with assms(1) have n': "node' = AddChild now node ident name dt" by simp
  from AddChild_entries_cases [of node now ident name dt] show ?thesis
  proof (elim disjE exE conjE)
    fix i assume "i < length (elems (entries node))" "Type (elems (entries node) ! i) = DT_Unknown"
      "entries (AddChild now node ident name dt) = Some ((elems (entries node))
          [i := \<lparr>Offset = of_nat (i + 1), Inode = ident, Name = name, Type = dt\<rparr>])"
    then show ?thesis using assms(2) n'
      by (auto simp: offsets_ok_update nth_list_update)
  next
    assume "entries (AddChild now node ident name dt) = Some (elems (entries node) @
          [\<lparr>Offset = of_nat (length (elems (entries node)) + 1), Inode = ident, Name = name, Type = dt\<rparr>])"
    then show ?thesis using assms(2) n'
      by (auto simp: offsets_ok_snoc nth_append)
  qed
next
  case (OpRemoveChild now name)
  with assms(1) have "RemoveChild now node name = Inr node'" by simp
  from RemoveChild_Inr_cases [OF this] obtain i where
    "i < length (elems (entries node))" "Name (elems (entries node) ! i) = name"
    "entries node' = Some ((elems (entries node))[i := unused_entry i])" by blast
  then show ?thesis using assms(2) OpRemoveChild
    by (auto simp: offsets_ok_update unused_entry_def nth_list_update)
qed

lemma removed_names_Cons: "removed_names (op # ops) = removed_names [op] \<union> removed_names ops"
  by (cases op) auto

lemma run_ops_stable:
  "offsets_ok (elems (entries node)) \<Longrightarrow> run_ops node ops = Inr node' \<Longrightarrow>
     offsets_ok (elems (entries node'))
   \<and> length (elems (entries node)) \<le> length (elems (entries node'))
   \<and> (\<forall>i<length (elems (entries node)).
         Type (elems (entries node) ! i) \<noteq> DT_Unknown
           \<and> Name (elems (entries node) ! i) \<notin> removed_names ops
         \<longrightarrow> elems (entries node') ! i = elems (entries node) ! i)"
proof (induction ops arbitrary: node)
  case Nil
  then show ?case by simp
next
  case (Cons op ops)
  from Cons.prems(2) obtain mid where mid: "apply_op node op = Inr mid" "run_ops mid ops = Inr node'"
    by (auto split: sum.splits)
  note step = apply_op_step [OF mid(1) Cons.prems(1)]
  from step have ok: "offsets_ok (elems (entries mid))" by blast
  note rest = Cons.IH [OF ok mid(2)]
  have "elems (entries node') ! i = elems (entries node) ! i"
    if "i < length (elems (entries node))" "Type (elems (entries node) ! i) \<noteq> DT_Unknown"
      "Name (elems (entries node) ! i) \<notin> removed_names (op # ops)" for i
  proof -
    from that(3) have a: "Name (elems (entries node) ! i) \<notin> removed_names [op]"
      and b: "Name (elems (entries node) ! i) \<notin> removed_names ops"
      using removed_names_Cons [of op ops] by auto
    from step that(1,2) a have e: "elems (entries mid) ! i = elems (entries node) ! i" by blast
    moreover from step that(1) have "i < length (elems (entries mid))" by linarith
    ultimately show ?thesis using rest that(2) b by metis
  qed
  moreover from step rest have "length (elems (entries node)) \<le> length (elems (entries node'))"
    by linarith
  ultimately show ?case using rest by blast
qed

text \<open>
  Claim C1 (cursor stability). Let the entry table of a node satisfy
  \<open>entries[i].Offset = i + 1\<close> for every index, and let any sequence of \<open>AddChild\<close> and
  \<open>RemoveChild\<close> calls run on it without a panic. Then the table afterwards satisfies
  \<open>entries[i].Offset = i + 1\<close> for every index again, it is at least as long as before,
  and every entry that was in use before and whose name no \<open>RemoveChild\<close> of the sequence
  names is found, unchanged, at the index it had.
\<close>

theorem cursor_stability:
  "offsets_ok (elems (entries node)) \<Longrightarrow> run_ops node ops = Inr node' \<Longrightarrow>
     offsets_ok (elems (entries node'))
   \<and> length (elems (entries node)) \<le> length (elems (entries node'))
   \<and> (i < length (elems (entries node))
        \<and> Type (elems (entries node) ! i) \<noteq> DT_Unknown
        \<and> Name (elems (entries node) ! i) \<notin> removed_names ops
      \<longrightarrow> elems (entries node') ! i = elems (entries node) ! i)"
  using run_ops_stable [of node ops node'] by blast

lemma offsets_ok_full_dir: "offsets_ok (elems (entries full_dir))"
  by (simp add: offsets_ok_def full_dir_def less_Suc_eq numeral_2_eq_2)

lemma run_ops_full_dir:
  "run_ops full_dir
     [OpRemoveChild 5 ''a'', OpAddChild 6 21 ''x'' DT_File, OpAddChild 7 22 ''y'' DT_Link] =
   Inr full_dir_after"
  by (simp add: full_dir_def full_dir_after_def RemoveChild_def findChild_def AddChild_def
      set_offset_def unused_entry_def len_def Let_def)

theorem cursor_stability_witness:
  "offsets_ok (elems (entries full_dir))
   \<and> run_ops full_dir
       [OpRemoveChild 5 ''a'', OpAddChild 6 21 ''x'' DT_File, OpAddChild 7 22 ''y'' DT_Link] =
     Inr full_dir_after
   \<and> offsets_ok (elems (entries full_dir_after))
   \<and> length (elems (entries full_dir)) \<le> length (elems (entries full_dir_after))
   \<and> (1 < length (elems (entries full_dir))
        \<and> Type (elems (entries full_dir) ! 1) \<noteq> DT_Unknown
        \<and> Name (elems (entries full_dir) ! 1) \<notin>
            removed_names
              [OpRemoveChild 5 ''a'', OpAddChild 6 21 ''x'' DT_File, OpAddChild 7 22 ''y'' DT_Link])
   \<and> elems (entries full_dir_after) ! 1 = elems (entries full_dir) ! 1"
proof -
  have h: "1 < length (elems (entries full_dir))
        \<and> Type (elems (entries full_dir) ! 1) \<noteq> DT_Unknown
        \<and> Name (elems (entries full_dir) ! 1) \<notin>
            removed_names
              [OpRemoveChild 5 ''a'', OpAddChild 6 21 ''x'' DT_File, OpAddChild 7 22 ''y'' DT_Link]"
    by (simp add: full_dir_def)
  from cursor_stability [OF offsets_ok_full_dir run_ops_full_dir, of 1] h
  show ?thesis using offsets_ok_full_dir run_ops_full_dir by blast
qed

subsection \<open>LookUpChild\<close>

lemma LookUpChild_first:
  assumes "dir node" "i < length (elems (entries node))" "Name (elems (entries node) ! i) = name"
    "\<forall>j<i. Name (elems (entries node) ! j) \<noteq> name"
  shows "LookUpChild node name = Inr (Inode (elems (entries node) ! i), True)"
proof -
  have "findChild_loop (elems (entries node)) name 0 0 = (i, True)"
    using findChild_loop_first [OF assms(2-4), of 0 0] by simp
  then show ?thesis using assms(1,2)
    by (simp add: LookUpChild_def findChild_def len_elems)
qed

lemma LookUpChild_missing:
  assumes "dir node" "\<forall>e\<in>set (elems (entries node)). Name e \<noteq> name"
  shows "LookUpChild node name = Inr (0, False)"
proof -
  obtain m where "findChild_loop (elems (entries node)) name 0 0 = (m, False)"
    using findChild_loop_none [OF assms(2), of 0 0]
    by (cases "findChild_loop (elems (entries node)) name 0 0") auto
  then show ?thesis using assms(1)
    by (simp add: LookUpChild_def findChild_def)
qed

text \<open>
  Unused entries keep the empty name along every run whose \<open>AddChild\<close> calls respect
  \<open>dt \<noteq> DT_Unknown\<close>.
\<close>

lemma holes_blank_apply_op:
  assumes "apply_op node op = Inr node'" "holes_blank (elems (entries node))" "adds_used op"
  shows "holes_blank (elems (entries node'))"
proof (cases op)
  case (OpAddChild now ident name dt)
  with assms(1) have n': "node' = AddChild now node ident name dt" by simp
  from assms(3) OpAddChild have dt: "dt \<noteq> DT_Unknown" by simp
  from AddChild_entries_cases [of node now ident name dt] show ?thesis
    using assms(2) n' dt
    by (auto simp: holes_blank_def dest!: set_update_subset_insert [THEN subsetD])
next
  case (OpRemoveChild now name)
  with assms(1) have "RemoveChild now node name = Inr node'" by simp
  from RemoveChild_Inr_cases [OF this] show ?thesis using assms(2)
    by (auto simp: holes_blank_def unused_entry_def dest!: set_update_subset_insert [THEN subsetD])
qed

lemma holes_blank_run_ops:
  "run_ops node ops = Inr node' \<Longrightarrow> holes_blank (elems (entries node)) \<Longrightarrow>
     list_all adds_used ops \<Longrightarrow> holes_blank (elems (entries node'))"
proof (induction ops arbitrary: node)
  case Nil
  then show ?case by simp
next
  case (Cons op ops)
  from Cons.prems(1) obtain mid where mid: "apply_op node op = Inr mid" "run_ops mid ops = Inr node'"
    by (auto split: sum.splits)
  from holes_blank_apply_op [OF mid(1) Cons.prems(2)] Cons.prems(3)
  have "holes_blank (elems (entries mid))" by simp
  from Cons.IH [OF mid(2) this] Cons.prems(3) show ?case by simp
qed

lemma run_ops_gap_dir:
  "run_ops empty_dir
     [OpAddChild 1 11 ''a'' DT_File, OpAddChild 2 12 ''b'' DT_File,
      OpAddChild 2 13 ''c'' DT_Directory, OpRemoveChild 3 ''b''] = Inr gap_dir"
  by (simp add: empty_dir_def newInode_def dir_attrs_def gap_dir_def ModeDir_def
      RemoveChild_def findChild_def AddChild_def set_offset_def unused_entry_def len_def Let_def)

text \<open>
  Claim C4 is what the comments of \<open>findChild\<close> (the index of the child, if it exists) and
  of the field \<open>entries\<close> (unused entries are of type \<open>DT_Unknown\<close>) promise, and what \<open>Len\<close>,
  \<open>ReadDir\<close>, \<open>AddChild\<close> and \<open>checkInvariants\<close> do by testing the type; \<open>findChild\<close> misses
  the test. In the directory reached from the empty one by adding \<open>a\<close>, \<open>b\<close>, \<open>c\<close> and
  removing \<open>b\<close>, which passes \<open>checkInvariants\<close>, no used entry has the empty name, yet
  looking up the empty name reports the unused slot as a match: \<open>found = true\<close> with child
  identifier 0. In \<open>blank_dir\<close> the child with the empty name has identifier 12, and the
  lookup returns the identifier 0 of the unused slot in front of it.
\<close>

theorem LookUpChild_reports_unused_slot:
  "run_ops empty_dir
     [OpAddChild 1 11 ''a'' DT_File, OpAddChild 2 12 ''b'' DT_File,
      OpAddChild 2 13 ''c'' DT_Directory, OpRemoveChild 3 ''b''] = Inr gap_dir
   \<and> checkInvariants gap_dir = None
   \<and> \<not> (\<exists>e\<in>set (elems (entries gap_dir)). Name e = [] \<and> Type e \<noteq> DT_Unknown)
   \<and> LookUpChild gap_dir [] = Inr (0, True)
   \<and> checkInvariants blank_dir = None
   \<and> elems (entries blank_dir) ! 1 = \<lparr>Offset = 2, Inode = 12, Name = [], Type = DT_File\<rparr>
   \<and> LookUpChild blank_dir [] = Inr (0, True)"
proof -
  have "checkInvariants gap_dir = None"
    by (simp add: checkInvariants_def gap_dir_def ModeDir_def ModePerm_def len_def)
  moreover have "LookUpChild gap_dir [] = Inr (0, True)"
    by (simp add: LookUpChild_def findChild_def gap_dir_def len_def)
  moreover have "\<not> (\<exists>e\<in>set (elems (entries gap_dir)). Name e = [] \<and> Type e \<noteq> DT_Unknown)"
    by (simp add: gap_dir_def)
  moreover have "elems (entries blank_dir) ! 1
      = \<lparr>Offset = 2, Inode = 12, Name = [], Type = DT_File\<rparr>"
    by (simp add: blank_dir_def)
  moreover have "LookUpChild blank_dir [] = Inr (0, True)"
    by (simp add: LookUpChild_def findChild_def blank_dir_def len_def)
  ultimately show ?thesis using run_ops_gap_dir checkInvariants_blank_dir by simp
qed

text \<open>
  What \<open>LookUpChild name\<close> does on a directory: it returns the inode of the first slot whose
  name is \<open>name\<close>, whatever its type, with \<open>found = true\<close>, and \<open>found = false\<close> with
  identifier 0 when no slot carries the name. When the name is not empty and every unused
  slot carries the empty name, as \<open>RemoveChild\<close> leaves them, the slot found is the first
  entry that has the name and is in use.
\<close>

lemma LookUpChild_first_name_match:
  "dir node \<Longrightarrow>
     ((\<forall>e\<in>set (elems (entries node)). Name e \<noteq> name)
        \<longrightarrow> LookUpChild node name = Inr (0, False))
   \<and> (i < length (elems (entries node)) \<and> Name (elems (entries node) ! i) = name
        \<and> (\<forall>j<i. Name (elems (entries node) ! j) \<noteq> name)
        \<longrightarrow> LookUpChild node name = Inr (Inode (elems (entries node) ! i), True))
   \<and> (name \<noteq> [] \<and> holes_blank (elems (entries node)) \<longrightarrow>
        ((\<forall>e\<in>set (elems (entries node)). \<not> used_named name e)
           \<longrightarrow> LookUpChild node name = Inr (0, False))
      \<and> (i < length (elems (entries node)) \<and> used_named name (elems (entries node) ! i)
           \<and> (\<forall>j<i. \<not> used_named name (elems (entries node) ! j))
           \<longrightarrow> LookUpChild node name = Inr (Inode (elems (entries node) ! i), True)))"
proof -
  assume d: "dir node"
  let ?es = "elems (entries node)"
  have eq: "used_named name e \<longleftrightarrow> Name e = name"
    if "name \<noteq> []" "holes_blank ?es" "e \<in> set ?es" for e
    using that by (auto simp: used_named_def holes_blank_def)
  have a: "(\<forall>e\<in>set ?es. Name e \<noteq> name) \<longrightarrow> LookUpChild node name = Inr (0, False)"
    using LookUpChild_missing [OF d] by blast
  have b: "LookUpChild node name = Inr (Inode (?es ! k), True)"
    if "k < length ?es" "Name (?es ! k) = name" "\<forall>j<k. Name (?es ! j) \<noteq> name" for k
    using LookUpChild_first [OF d that] .
  have c: "LookUpChild node name = Inr (0, False)"
    if "name \<noteq> []" "holes_blank ?es" "\<forall>e\<in>set ?es. \<not> used_named name e"
    using a eq [OF that(1,2)] that(3) by blast
  have e: "LookUpChild node name = Inr (Inode (?es ! i), True)"
    if "name \<noteq> []" "holes_blank ?es" "i < length ?es" "used_named name (?es ! i)"
       "\<forall>j<i. \<not> used_named name (?es ! j)"
  proof -
    have "Name (?es ! i) = name" using that(4) by (simp add: used_named_def)
    moreover have "\<forall>j<i. Name (?es ! j) \<noteq> name"
    proof (intro allI impI)
      fix j assume "j < i"
      then have "?es ! j \<in> set ?es" using that(3) by simp
      from eq [OF that(1,2) this] that(5) \<open>j < i\<close> show "Name (?es ! j) \<noteq> name" by blast
    qed
    ultimately show ?thesis using b that(3) by blast
  qed
  show ?thesis using a b [of i] c e by blast
qed

section \<open>Properties of ReadDir\<close>

subsection \<open>One call\<close>

lemma ReadDir_loop_closed:
  "0 \<le> i \<Longrightarrow> 0 \<le> maxsize \<Longrightarrow> int (length data) \<le> maxsize \<Longrightarrow>
   ReadDir_loop ser es maxsize i data =
     Inr (take (nat maxsize) (data @ serial ser (listed es (nat i))))"
proof (induction ser es maxsize i data rule: ReadDir_loop.induct)
  case (1 ser es maxsize i data)
  show ?case
  proof (cases "i < int (length es)")
    case False
    then have "drop (nat i) es = []" by simp
    with False "1.prems" show ?thesis
      by (subst ReadDir_loop.simps) (simp add: listed_def serial_def)
  next
    case True
    let ?e = "es ! nat i"
    from True "1.prems"(1) have d: "drop (nat i) es = ?e # drop (nat (i + 1)) es"
      using Cons_nth_drop_Suc [of "nat i" es] by (simp add: nat_add_distrib)
    show ?thesis
    proof (cases "Type ?e = DT_Unknown")
      case unused: True
      have "ReadDir_loop ser es maxsize (i + 1) data =
          Inr (take (nat maxsize) (data @ serial ser (listed es (nat (i + 1)))))"
        using "1.IH"(1) True "1.prems" unused by simp
      moreover have "listed es (nat i) = listed es (nat (i + 1))"
        using d unused by (simp add: listed_def)
      ultimately show ?thesis using True "1.prems"(1) unused
        by (subst ReadDir_loop.simps) simp
    next
      case used: False
      have l: "listed es (nat i) = ?e # listed es (nat (i + 1))"
        using d used by (simp add: listed_def)
      show ?thesis
      proof (cases "maxsize < int (length (AppendDirent ser data ?e))")
        case over: True
        then have "nat maxsize < length (data @ ser ?e)"
          using "1.prems"(2) by (simp add: AppendDirent_def)
        then have "take (nat maxsize) (data @ serial ser (listed es (nat i))) =
            take (nat maxsize) (data @ ser ?e)"
          by (simp add: l serial_def)
        then show ?thesis using True "1.prems"(1,2) used over
          by (subst ReadDir_loop.simps) (simp add: AppendDirent_def)
      next
        case fits: False
        have "ReadDir_loop ser es maxsize (i + 1) (AppendDirent ser data ?e) =
          Inr (take (nat maxsize) (AppendDirent ser data ?e @ serial ser (listed es (nat (i + 1)))))"
          using "1.IH"(2) True "1.prems" used fits by simp
        then show ?thesis using True "1.prems"(1) used fits
          by (subst ReadDir_loop.simps) (simp add: AppendDirent_def l serial_def)
      qed
    qed
  qed
qed

lemma ReadDir_closed:
  "dir node \<Longrightarrow> 0 \<le> offset \<Longrightarrow> 0 \<le> maxsize \<Longrightarrow>
   ReadDir ser node offset maxsize =
     Inr (take (nat maxsize) (serial ser (listed (elems (entries node)) (nat offset))))"
  using ReadDir_loop_closed [of offset maxsize "[]" ser "elems (entries node)"]
  by (simp add: ReadDir_def)

lemma ReadDir_negative_offset:
  "dir node \<Longrightarrow> offset < 0 \<Longrightarrow> ReadDir ser node offset maxsize = Inl IndexOutOfRange"
  by (simp add: ReadDir_def ReadDir_loop.simps)


lemma ReadDir_returns:
  assumes "dir node" "0 \<le> maxsize" "ReadDir ser node offset maxsize = Inr data"
  shows "0 \<le> offset"
proof (rule ccontr)
  assume "\<not> 0 \<le> offset"
  then have "ReadDir ser node offset maxsize = Inl IndexOutOfRange"
    using ReadDir_negative_offset [OF assms(1)] by simp
  with assms(3) show False by simp
qed

text \<open>
  Claim C5. A cursor is an index and \<open>maxBytes\<close> a number of bytes: the bound is not
  negative. On a directory, whenever \<open>ReadDir offset maxsize\<close> returns a buffer, the
  buffer is the first \<open>maxsize\<close> bytes of the concatenation of the serialized forms of the
  used entries from index \<open>offset\<close> to the end, in position order: unused entries
  contribute nothing, the buffer is never longer than \<open>maxsize\<close>, and it has exactly
  \<open>maxsize\<close> bytes when the entries do not all fit. The call returns for every cursor that
  is not negative (also one past the end of the table); a negative cursor indexes the
  table out of range.
\<close>

theorem ReadDir_page:
  "dir node \<Longrightarrow> 0 \<le> maxsize \<Longrightarrow>
     (ReadDir ser node offset maxsize = Inr data \<longrightarrow>
        data = take (nat maxsize) (serial ser (listed (elems (entries node)) (nat offset)))
        \<and> int (length data) \<le> maxsize
        \<and> (maxsize < int (length (serial ser (listed (elems (entries node)) (nat offset))))
             \<longrightarrow> int (length data) = maxsize))
   \<and> (0 \<le> offset \<longrightarrow> (\<exists>buf. ReadDir ser node offset maxsize = Inr buf))
   \<and> (offset < 0 \<longrightarrow> ReadDir ser node offset maxsize = Inl IndexOutOfRange)"
proof -
  assume d: "dir node" and m: "0 \<le> maxsize"
  have "data = take (nat maxsize) (serial ser (listed (elems (entries node)) (nat offset)))"
    if r: "ReadDir ser node offset maxsize = Inr data"
    using ReadDir_closed [OF d ReadDir_returns [OF d m r] m, of ser] r by simp
  moreover have "\<exists>buf. ReadDir ser node offset maxsize = Inr buf" if "0 \<le> offset"
    using ReadDir_closed [OF d that m, of ser] by simp
  moreover have "ReadDir ser node offset maxsize = Inl IndexOutOfRange" if "offset < 0"
    using ReadDir_negative_offset [OF d that] .
  ultimately show ?thesis using m by auto
qed

theorem ReadDir_page_witness:
  "dir gap_dir \<and> (0::int) \<le> 4
   \<and> ReadDir sample_ser gap_dir 0 4 = Inr [1, 11, 1, 3]
   \<and> [1, 11, 1, 3] =
       take (nat 4) (serial sample_ser (listed (elems (entries gap_dir)) (nat 0)))
   \<and> int (length [1, 11, 1, 3 :: byte]) \<le> 4
   \<and> (4::int) < int (length (serial sample_ser (listed (elems (entries gap_dir)) (nat 0))))
   \<and> ReadDir sample_ser gap_dir (- 1) 4 = Inl IndexOutOfRange"
proof -
  have d: "dir gap_dir" by (simp add: gap_dir_def)
  have r: "ReadDir sample_ser gap_dir 0 4 = Inr [1, 11, 1, 3]"
    by (simp add: ReadDir_def gap_dir_def ReadDir_loop.simps AppendDirent_def sample_ser_def)
  have l: "(4::int) < int (length (serial sample_ser (listed (elems (entries gap_dir)) (nat 0))))"
    by (simp add: gap_dir_def listed_def serial_def sample_ser_def)
  from ReadDir_page [OF d, of 4 sample_ser 0 "[1, 11, 1, 3]"] r
  have "[1, 11, 1, 3] =
       take (nat 4) (serial sample_ser (listed (elems (entries gap_dir)) (nat 0)))
     \<and> int (length [1, 11, 1, 3 :: byte]) \<le> 4"
    by simp
  moreover from ReadDir_page [OF d, of 4 sample_ser "- 1" "[]"]
  have "ReadDir sample_ser gap_dir (- 1) 4 = Inl IndexOutOfRange" by simp
  ultimately show ?thesis using d r l by simp
qed

subsection \<open>Two pages\<close>

lemma whole_entries_take:
  "whole_entries ser n xs = take (length (whole_entries ser n xs)) xs"
  by (induction xs arbitrary: n) auto

lemma whole_entries_fits: "length (serial ser (whole_entries ser n xs)) \<le> n"
proof (induction xs arbitrary: n)
  case Nil
  then show ?case by (simp add: serial_def)
next
  case (Cons x xs)
  show ?case
  proof (cases "length (ser x) \<le> n")
    case True
    with Cons.IH [of "n - length (ser x)"] show ?thesis by (simp add: serial_def)
  next
    case False
    then show ?thesis by (simp add: serial_def)
  qed
qed

lemma serial_append: "serial ser (xs @ ys) = serial ser xs @ serial ser ys"
  by (simp add: serial_def)

lemma whole_entries_in_page:
  "take (length (serial ser (whole_entries ser n xs))) (take n (serial ser xs))
     = serial ser (whole_entries ser n xs)"
proof -
  let ?w = "whole_entries ser n xs"
  have "xs = ?w @ drop (length ?w) xs"
    using whole_entries_take [of ser n xs] append_take_drop_id [of "length ?w" xs] by simp
  then have "serial ser xs = serial ser ?w @ serial ser (drop (length ?w) xs)"
    using serial_append [of ser ?w "drop (length ?w) xs"] by simp
  then show ?thesis using whole_entries_fits [of ser n xs]
    by (simp add: min_def)
qed

lemma filter_split_last:
  "filter P xs = ys @ zs \<Longrightarrow> ys \<noteq> [] \<Longrightarrow>
     \<exists>k<length xs. xs ! k = last ys \<and> filter P (drop (Suc k) xs) = zs"
proof (induction xs arbitrary: ys)
  case Nil
  then show ?case by simp
next
  case (Cons x xs)
  show ?case
  proof (cases "P x")
    case False
    with Cons.prems have "filter P xs = ys @ zs" by simp
    from Cons.IH [OF this Cons.prems(2)] obtain k where
      "k < length xs" "xs ! k = last ys" "filter P (drop (Suc k) xs) = zs" by blast
    then show ?thesis by (intro exI [of _ "Suc k"]) simp
  next
    case True
    with Cons.prems obtain ys' where ys: "ys = x # ys'" "filter P xs = ys' @ zs"
      by (cases ys) auto
    show ?thesis
    proof (cases "ys' = []")
      case True
      with ys show ?thesis by (intro exI [of _ 0]) simp
    next
      case False
      from Cons.IH [OF ys(2) False] obtain k where
        "k < length xs" "xs ! k = last ys'" "filter P (drop (Suc k) xs) = zs" by blast
      then show ?thesis using ys False by (intro exI [of _ "Suc k"]) simp
    qed
  qed
qed

lemma listed_resume:
  assumes "offsets_ok es" "length es < 2 ^ 64" "listed es c = ys @ zs"
  shows "listed es (next_cursor c ys) = zs"
proof (cases "ys = []")
  case True
  with assms(3) show ?thesis by (simp add: next_cursor_def)
next
  case False
  from filter_split_last [OF assms(3) [unfolded listed_def] False] obtain k where
    k: "k < length (drop c es)" "drop c es ! k = last ys"
       "filter (\<lambda>e. Type e \<noteq> DT_Unknown) (drop (Suc k) (drop c es)) = zs" by blast
  from k(1) have lt: "c + k < length es" by simp
  then have o: "Offset (es ! (c + k)) = of_nat (c + k + 1)"
    using assms(1) unfolding offsets_ok_def by blast
  have "c + k + 1 < 2 ^ 64" using lt assms(2) by linarith
  then have "unat (of_nat (c + k + 1) :: 64 word) = c + k + 1"
    by (subst unat_of_nat) simp
  moreover have "drop c es ! k = es ! (c + k)" using lt by simp
  ultimately have "unat (Offset (last ys)) = c + k + 1"
    using k(2) o by (simp only:)
  then have "next_cursor c ys = c + k + 1"
    using False by (simp add: next_cursor_def)
  moreover have "drop (Suc k) (drop c es) = drop (c + k + 1) es" by (simp add: add.commute)
  ultimately show ?thesis using k(3) by (simp add: listed_def)
qed

lemma filter_drop_update:
  "i < length es \<Longrightarrow> \<not> P (es ! i) \<Longrightarrow> \<not> P v \<Longrightarrow>
     filter P (drop c (es[i := v])) = filter P (drop c es)"
proof (induction es arbitrary: i c)
  case Nil
  then show ?case by simp
next
  case (Cons e es)
  show ?case
  proof (cases i)
    case 0
    with Cons.prems show ?thesis by (cases c) auto
  next
    case (Suc m)
    with Cons.prems have r: "filter P (drop c' (es[m := v])) = filter P (drop c' es)" for c'
      by (intro Cons.IH) auto
    from r [of 0] have r0: "filter P (es[m := v]) = filter P es" by simp
    show ?thesis
    proof (cases c)
      case 0
      with Suc r0 show ?thesis by simp
    next
      case (Suc c')
      with \<open>i = Suc m\<close> r [of c'] show ?thesis by simp
    qed
  qed
qed

lemma filter_drop_snoc:
  "\<not> P v \<Longrightarrow> filter P (drop c (es @ [v])) = filter P (drop c es)"
proof -
  assume n: "\<not> P v"
  have "filter P (drop k [v]) = []" for k
    using n by (cases k) simp_all
  then show ?thesis by simp
qed

lemma touched_names_Cons:
  "touched_names (op # ops) = touched_names [op] \<union> touched_names ops"
  by (cases op) auto

lemma apply_op_listed:
  assumes "apply_op node op = Inr node'"
  shows "filter (\<lambda>e. Type e \<noteq> DT_Unknown \<and> Name e \<notin> T \<union> touched_names [op]) (drop c (elems (entries node')))
       = filter (\<lambda>e. Type e \<noteq> DT_Unknown \<and> Name e \<notin> T \<union> touched_names [op]) (drop c (elems (entries node)))"
proof (cases op)
  case (OpAddChild now ident name dt)
  with assms(1) have n': "node' = AddChild now node ident name dt" by simp
  from AddChild_entries_cases [of node now ident name dt] show ?thesis
  proof (elim disjE exE conjE)
    fix i assume "i < length (elems (entries node))" "Type (elems (entries node) ! i) = DT_Unknown"
      "entries (AddChild now node ident name dt) = Some ((elems (entries node))
          [i := \<lparr>Offset = of_nat (i + 1), Inode = ident, Name = name, Type = dt\<rparr>])"
    then show ?thesis using n' OpAddChild
      by (simp add: filter_drop_update)
  next
    assume "entries (AddChild now node ident name dt) = Some (elems (entries node) @
          [\<lparr>Offset = of_nat (length (elems (entries node)) + 1), Inode = ident, Name = name, Type = dt\<rparr>])"
    then show ?thesis using n' OpAddChild by (simp add: filter_drop_snoc del: drop_append)
  qed
next
  case (OpRemoveChild now name)
  with assms(1) have "RemoveChild now node name = Inr node'" by simp
  from RemoveChild_Inr_cases [OF this] obtain i where
    "i < length (elems (entries node))" "Name (elems (entries node) ! i) = name"
    "entries node' = Some ((elems (entries node))[i := unused_entry i])" by blast
  then show ?thesis using OpRemoveChild
    by (simp add: filter_drop_update unused_entry_def)
qed

lemma run_ops_listed:
  "run_ops node ops = Inr node' \<Longrightarrow>
     filter (\<lambda>e. Type e \<noteq> DT_Unknown \<and> Name e \<notin> T \<union> touched_names ops) (drop c (elems (entries node')))
   = filter (\<lambda>e. Type e \<noteq> DT_Unknown \<and> Name e \<notin> T \<union> touched_names ops) (drop c (elems (entries node)))"
proof (induction ops arbitrary: node T)
  case Nil
  then show ?case by simp
next
  case (Cons op ops)
  from Cons.prems obtain mid where mid: "apply_op node op = Inr mid" "run_ops mid ops = Inr node'"
    by (auto split: sum.splits)
  have u: "T \<union> touched_names (op # ops) = (T \<union> touched_names [op]) \<union> touched_names ops"
    "T \<union> touched_names (op # ops) = (T \<union> touched_names ops) \<union> touched_names [op]"
    using touched_names_Cons [of op ops] by auto
  from Cons.IH [OF mid(2), of "T \<union> touched_names [op]"]
       apply_op_listed [OF mid(1), of "T \<union> touched_names ops" c]
  show ?case unfolding u(1) unfolding u(2) [symmetric] u(1) by simp
qed

lemma run_ops_listed_untouched:
  assumes "run_ops node ops = Inr node'"
  shows "filter (untouched ops) (listed (elems (entries node')) c)
       = filter (untouched ops) (listed (elems (entries node)) c)"
  using run_ops_listed [OF assms, of "{}" c]
  by (simp add: listed_def untouched_def conj_commute)

lemma apply_op_dir: "apply_op node op = Inr node' \<Longrightarrow> dir node' = dir node"
  by (cases op) (auto simp: AddChild_other_fields RemoveChild_def Let_def findChild_def
      split: if_splits prod.splits option.splits)

lemma run_ops_dir: "run_ops node ops = Inr node' \<Longrightarrow> dir node' = dir node"
proof (induction ops arbitrary: node)
  case Nil
  then show ?case by simp
next
  case (Cons op ops)
  from Cons.prems obtain mid where mid: "apply_op node op = Inr mid" "run_ops mid ops = Inr node'"
    by (auto split: sum.splits)
  from Cons.IH [OF mid(2)] apply_op_dir [OF mid(1)] show ?case by simp
qed


lemma page_then_rest:
  assumes "offsets_ok es" "length es < 2 ^ 64"
  shows "whole_entries ser n (listed es c)
           @ listed es (next_cursor c (whole_entries ser n (listed es c))) = listed es c"
proof -
  let ?w = "whole_entries ser n (listed es c)"
  have s: "listed es c = ?w @ drop (length ?w) (listed es c)"
    using whole_entries_take [of ser n "listed es c"]
      append_take_drop_id [of "length ?w" "listed es c"] by simp
  from listed_resume [OF assms s] s show ?thesis by simp
qed

lemma ReadDir_unbounded:
  "dir node \<Longrightarrow> length (serial ser (listed (elems (entries node)) c)) \<le> big \<Longrightarrow>
     ReadDir ser node (int c) (int big) = Inr (serial ser (listed (elems (entries node)) c))"
  using ReadDir_closed [of node "int c" "int big" ser] by simp

lemma untouched_Nil: "filter (untouched []) xs = xs"
  by (simp add: untouched_def)

lemma AddChild_full_dir_x:
  "run_ops full_dir [OpAddChild 6 21 ''x'' DT_File] = Inr (AddChild 6 full_dir 21 ''x'' DT_File)"
  by simp

lemma entries_AddChild_full_dir_x:
  "elems (entries (AddChild 6 full_dir 21 ''x'' DT_File)) =
     [\<lparr>Offset = 1, Inode = 11, Name = ''a'', Type = DT_File\<rparr>,
      \<lparr>Offset = 2, Inode = 12, Name = ''b'', Type = DT_File\<rparr>,
      \<lparr>Offset = 3, Inode = 21, Name = ''x'', Type = DT_File\<rparr>]"
  by (simp add: full_dir_def AddChild_def set_offset_def Let_def)

lemma entries_AddChild_gap_dir_x:
  "elems (entries (AddChild 6 gap_dir 21 ''x'' DT_File)) =
     [\<lparr>Offset = 1, Inode = 11, Name = ''a'', Type = DT_File\<rparr>,
      \<lparr>Offset = 2, Inode = 21, Name = ''x'', Type = DT_File\<rparr>,
      \<lparr>Offset = 3, Inode = 13, Name = ''c'', Type = DT_Directory\<rparr>]"
  by (simp add: gap_dir_def AddChild_def set_offset_def Let_def)

lemma ReadDir_eval:
  "dir node \<Longrightarrow> elems (entries node) = es \<Longrightarrow> 0 \<le> offset \<Longrightarrow> 0 \<le> maxsize \<Longrightarrow>
     ReadDir ser node offset maxsize = Inr (take (nat maxsize) (serial ser (listed es (nat offset))))"
  using ReadDir_closed [of node offset maxsize ser] by simp

text \<open>
  Claim C6, as stated, fails in three ways. The serialization \<open>sample_ser\<close> takes three
  bytes per entry.
  \<^item> The directory holds \<open>a\<close> and \<open>b\<close>. Page 1, read at cursor 0 with a bound of 3 bytes,
    carries \<open>a\<close>; the next cursor is 1. \<open>AddChild x\<close>, a name unrelated to \<open>a\<close> and \<open>b\<close>,
    appends at index 2. Page 2, read at cursor 1, carries \<open>b\<close> and \<open>x\<close>: the two pages
    differ from the single read of the directory as it was.
  \<^item> The directory holds \<open>a\<close>, an unused slot and \<open>c\<close>. Page 1, read at cursor 0 with a
    bound of 6 bytes, carries \<open>a\<close> and \<open>c\<close>; the next cursor is 3. \<open>AddChild x\<close> fills
    slot 1. Page 2, read at cursor 3, is empty: the two pages differ from the single
    read of the directory as it is now.
  \<^item> Without any call in between: page 1 of the first directory with a bound of 4 bytes
    ends in the first byte of \<open>b\<close>, which a read resumed at cursor 1 returns again, so
    the concatenation of the two buffers differs from the single read.
\<close>

theorem ReadDir_two_pages_counterexample:
  "ReadDir sample_ser full_dir 0 3 = Inr [1, 11, 1]
   \<and> ReadDir sample_ser (AddChild 6 full_dir 21 ''x'' DT_File) 1 100 = Inr [2, 12, 1, 3, 21, 1]
   \<and> ReadDir sample_ser full_dir 0 100 = Inr [1, 11, 1, 2, 12, 1]
   \<and> [1, 11, 1] @ [2, 12, 1, 3, 21, 1] \<noteq> [1, 11, 1, 2, 12, 1 :: byte]
   \<and> ReadDir sample_ser gap_dir 0 6 = Inr [1, 11, 1, 3, 13, 1]
   \<and> ReadDir sample_ser (AddChild 6 gap_dir 21 ''x'' DT_File) 3 100 = Inr []
   \<and> ReadDir sample_ser (AddChild 6 gap_dir 21 ''x'' DT_File) 0 100
       = Inr [1, 11, 1, 2, 21, 1, 3, 13, 1]
   \<and> [1, 11, 1, 3, 13, 1] @ [] \<noteq> [1, 11, 1, 2, 21, 1, 3, 13, 1 :: byte]
   \<and> ReadDir sample_ser full_dir 0 4 = Inr [1, 11, 1, 2]
   \<and> ReadDir sample_ser full_dir 1 100 = Inr [2, 12, 1]
   \<and> [1, 11, 1, 2] @ [2, 12, 1] \<noteq> [1, 11, 1, 2, 12, 1 :: byte]"
proof -
  have f: "dir full_dir"
    "elems (entries full_dir) =
       [\<lparr>Offset = 1, Inode = 11, Name = ''a'', Type = DT_File\<rparr>,
        \<lparr>Offset = 2, Inode = 12, Name = ''b'', Type = DT_File\<rparr>]"
    by (simp_all add: full_dir_def)
  have g: "dir gap_dir"
    "elems (entries gap_dir) =
       [\<lparr>Offset = 1, Inode = 11, Name = ''a'', Type = DT_File\<rparr>,
        \<lparr>Offset = 2, Inode = 0, Name = [], Type = DT_Unknown\<rparr>,
        \<lparr>Offset = 3, Inode = 13, Name = ''c'', Type = DT_Directory\<rparr>]"
    by (simp_all add: gap_dir_def)
  have fx: "dir (AddChild 6 full_dir 21 ''x'' DT_File)"
    and gx: "dir (AddChild 6 gap_dir 21 ''x'' DT_File)"
    using f(1) g(1) by (simp_all add: AddChild_other_fields)
  have "ReadDir sample_ser full_dir 0 3 = Inr [1, 11, 1]"
    "ReadDir sample_ser full_dir 0 100 = Inr [1, 11, 1, 2, 12, 1]"
    "ReadDir sample_ser full_dir 0 4 = Inr [1, 11, 1, 2]"
    "ReadDir sample_ser full_dir 1 100 = Inr [2, 12, 1]"
    by (simp_all add: ReadDir_eval [OF f] listed_def serial_def sample_ser_def)
  moreover have "ReadDir sample_ser (AddChild 6 full_dir 21 ''x'' DT_File) 1 100
      = Inr [2, 12, 1, 3, 21, 1]"
    by (simp add: ReadDir_eval [OF fx entries_AddChild_full_dir_x] listed_def serial_def
        sample_ser_def)
  moreover have "ReadDir sample_ser gap_dir 0 6 = Inr [1, 11, 1, 3, 13, 1]"
    by (simp add: ReadDir_eval [OF g] listed_def serial_def sample_ser_def)
  moreover have "ReadDir sample_ser (AddChild 6 gap_dir 21 ''x'' DT_File) 3 100 = Inr []"
    "ReadDir sample_ser (AddChild 6 gap_dir 21 ''x'' DT_File) 0 100
       = Inr [1, 11, 1, 2, 21, 1, 3, 13, 1]"
    by (simp_all add: ReadDir_eval [OF gx entries_AddChild_gap_dir_x] listed_def serial_def
        sample_ser_def)
  ultimately show ?thesis by simp
qed

text \<open>
  Claim C6, amended. Let the entry table of a directory satisfy \<open>entries[i].Offset = i+1\<close>
  (and be shorter than \<open>2^64\<close>, which every Go slice is). Page 1 is \<open>ReadDir\<close> at cursor
  \<open>c\<close> with bound \<open>maxsize\<close>; its whole entries are the longest run of leading used entries
  whose serialized forms fit into the bound, and the buffer starts with their serialized
  forms. The reader resumes at the \<open>Offset\<close> of the last whole entry (at \<open>c\<close> if there is
  none) with an unbounded \<open>ReadDir\<close>, after any sequence of \<open>AddChild\<close> and \<open>RemoveChild\<close>
  calls that ran without panic. Then the whole entries of page 1 followed by the entries
  of page 2 are, once the entries with a name that one of those calls names are left out
  on both sides, the entries of a single unbounded read at \<open>c\<close> of the directory as it was
  at page 1, in the same order. With no call in between, the serialized whole entries of
  page 1 followed by page 2 are exactly that single read.
\<close>

theorem ReadDir_resume:
  "dir node \<Longrightarrow> offsets_ok (elems (entries node)) \<Longrightarrow> length (elems (entries node)) < 2 ^ 64
   \<Longrightarrow> run_ops node ops = Inr node' \<Longrightarrow>
     (let es = elems (entries node);
          es' = elems (entries node');
          page1 = whole_entries ser maxsize (listed es c);
          c' = next_cursor c page1
      in ReadDir ser node (int c) (int maxsize) = Inr (take maxsize (serial ser (listed es c)))
       \<and> take (length (serial ser page1)) (take maxsize (serial ser (listed es c)))
           = serial ser page1
       \<and> (length (serial ser (listed es' c')) \<le> big
            \<longrightarrow> ReadDir ser node' (int c') (int big) = Inr (serial ser (listed es' c')))
       \<and> (length (serial ser (listed es c)) \<le> big
            \<longrightarrow> ReadDir ser node (int c) (int big) = Inr (serial ser (listed es c)))
       \<and> filter (untouched ops) (page1 @ listed es' c')
           = filter (untouched ops) (listed es c)
       \<and> (ops = [] \<longrightarrow> serial ser page1 @ serial ser (listed es' c') = serial ser (listed es c)))"
proof -
  assume d: "dir node" and ok: "offsets_ok (elems (entries node))"
    and len: "length (elems (entries node)) < 2 ^ 64" and run: "run_ops node ops = Inr node'"
  let ?es = "elems (entries node)" and ?es' = "elems (entries node')"
  let ?page1 = "whole_entries ser maxsize (listed ?es c)"
  let ?c' = "next_cursor c ?page1"
  from run d have d': "dir node'" by (simp add: run_ops_dir)
  have p1: "ReadDir ser node (int c) (int maxsize) = Inr (take maxsize (serial ser (listed ?es c)))"
    using ReadDir_closed [OF d, of "int c" "int maxsize" ser] by simp
  have w: "take (length (serial ser ?page1)) (take maxsize (serial ser (listed ?es c)))
      = serial ser ?page1"
    by (rule whole_entries_in_page)
  have p2: "ReadDir ser node' (int ?c') (int big) = Inr (serial ser (listed ?es' ?c'))"
    if "length (serial ser (listed ?es' ?c')) \<le> big"
    using ReadDir_unbounded [OF d' that] .
  have single: "ReadDir ser node (int c) (int big) = Inr (serial ser (listed ?es c))"
    if "length (serial ser (listed ?es c)) \<le> big"
    using ReadDir_unbounded [OF d that] .
  have rest: "?page1 @ listed ?es ?c' = listed ?es c"
    using page_then_rest [OF ok len] .
  have "filter (untouched ops) (?page1 @ listed ?es' ?c')
      = filter (untouched ops) ?page1 @ filter (untouched ops) (listed ?es ?c')"
    using run_ops_listed_untouched [OF run, of ?c'] by simp
  also have "\<dots> = filter (untouched ops) (?page1 @ listed ?es ?c')" by simp
  finally have pages: "filter (untouched ops) (?page1 @ listed ?es' ?c')
      = filter (untouched ops) (listed ?es c)"
    using rest by simp
  have quiet: "serial ser ?page1 @ serial ser (listed ?es' ?c') = serial ser (listed ?es c)"
    if "ops = []"
  proof -
    from that run have "node' = node" by simp
    with rest have "?page1 @ listed ?es' ?c' = listed ?es c" by simp
    then have "serial ser (?page1 @ listed ?es' ?c') = serial ser (listed ?es c)" by simp
    then show ?thesis by (simp only: serial_append)
  qed
  show ?thesis unfolding Let_def using p1 w p2 single pages quiet by blast
qed

theorem ReadDir_resume_witness:
  "dir full_dir \<and> offsets_ok (elems (entries full_dir))
   \<and> length (elems (entries full_dir)) < 2 ^ 64
   \<and> run_ops full_dir [OpAddChild 6 21 ''x'' DT_File] = Inr (AddChild 6 full_dir 21 ''x'' DT_File)
   \<and> whole_entries sample_ser 4 (listed (elems (entries full_dir)) 0)
       = [\<lparr>Offset = 1, Inode = 11, Name = ''a'', Type = DT_File\<rparr>]
   \<and> next_cursor 0 [\<lparr>Offset = 1, Inode = 11, Name = ''a'', Type = DT_File\<rparr>] = 1
   \<and> ReadDir sample_ser full_dir (int 0) (int 4) = Inr [1, 11, 1, 2]
   \<and> ReadDir sample_ser (AddChild 6 full_dir 21 ''x'' DT_File) (int 1) (int 100)
       = Inr [2, 12, 1, 3, 21, 1]
   \<and> ReadDir sample_ser full_dir (int 0) (int 100) = Inr [1, 11, 1, 2, 12, 1]
   \<and> filter (untouched [OpAddChild 6 21 ''x'' DT_File])
        ([\<lparr>Offset = 1, Inode = 11, Name = ''a'', Type = DT_File\<rparr>]
          @ listed (elems (entries (AddChild 6 full_dir 21 ''x'' DT_File))) 1)
       = [\<lparr>Offset = 1, Inode = 11, Name = ''a'', Type = DT_File\<rparr>,
          \<lparr>Offset = 2, Inode = 12, Name = ''b'', Type = DT_File\<rparr>]"
proof -
  have d: "dir full_dir" by (simp add: full_dir_def)
  have len: "length (elems (entries full_dir)) < 2 ^ 64" by (simp add: full_dir_def)
  have l: "listed (elems (entries full_dir)) 0 =
      [\<lparr>Offset = 1, Inode = 11, Name = ''a'', Type = DT_File\<rparr>,
       \<lparr>Offset = 2, Inode = 12, Name = ''b'', Type = DT_File\<rparr>]"
    by (simp add: full_dir_def listed_def)
  have w: "whole_entries sample_ser 4 (listed (elems (entries full_dir)) 0)
       = [\<lparr>Offset = 1, Inode = 11, Name = ''a'', Type = DT_File\<rparr>]"
    by (simp add: l sample_ser_def)
  have n: "next_cursor 0 [\<lparr>Offset = 1, Inode = 11, Name = ''a'', Type = DT_File\<rparr>] = 1"
    by (simp add: next_cursor_def)
  have l': "listed (elems (entries (AddChild 6 full_dir 21 ''x'' DT_File))) 1 =
      [\<lparr>Offset = 2, Inode = 12, Name = ''b'', Type = DT_File\<rparr>,
       \<lparr>Offset = 3, Inode = 21, Name = ''x'', Type = DT_File\<rparr>]"
    by (simp add: entries_AddChild_full_dir_x listed_def)
  from l' have l'': "listed (elems (entries (AddChild 6 full_dir 21 ''x'' DT_File))) (Suc 0) =
      [\<lparr>Offset = 2, Inode = 12, Name = ''b'', Type = DT_File\<rparr>,
       \<lparr>Offset = 3, Inode = 21, Name = ''x'', Type = DT_File\<rparr>]"
    by simp
  from ReadDir_resume [OF d offsets_ok_full_dir len AddChild_full_dir_x,
      of sample_ser 4 0 100]
  show ?thesis using d offsets_ok_full_dir len AddChild_full_dir_x
    by (simp add: Let_def w n l l'' serial_def sample_ser_def untouched_def)
qed

section \<open>Properties of the file contents\<close>

subsection \<open>ReadAt\<close>

lemma ReadAt_far:
  "\<not> dir node \<Longrightarrow> int (len (contents node)) < off \<Longrightarrow> ReadAt node p off = Inr (0, Some EOF, p)"
  by (simp add: ReadAt_def)

lemma ReadAt_near:
  "\<not> dir node \<Longrightarrow> 0 \<le> off \<Longrightarrow> off \<le> int (len (contents node)) \<Longrightarrow>
     ReadAt node p off =
       Inr (min (length p) (len (contents node) - nat off),
            if min (length p) (len (contents node) - nat off) < length p then Some EOF else None,
            take (min (length p) (len (contents node) - nat off))
                 (drop (nat off) (elems (contents node)))
              @ drop (min (length p) (len (contents node) - nat off)) p)"
  by (simp add: ReadAt_def slice_from_def copy_def Let_def len_elems)

lemma ReadAt_negative:
  "\<not> dir node \<Longrightarrow> off < 0 \<Longrightarrow> ReadAt node p off = Inl SliceBoundsOutOfRange"
  by (simp add: ReadAt_def slice_from_def)

text \<open>
  Claim C8. On a file node, whenever \<open>ReadAt p off\<close> returns, the result is as follows.
  If \<open>off\<close> is greater than the length of the contents, it is \<open>n = 0\<close> with \<open>io.EOF\<close> and
  the destination untouched. Otherwise \<open>n = min (len p) (len contents - off)\<close>, the first
  \<open>n\<close> bytes of the destination are the bytes of the contents from \<open>off\<close> on, the rest of
  the destination is untouched, and the error is \<open>io.EOF\<close> if and only if \<open>n < len p\<close>.
  \<open>io.EOF\<close> is part of the returned value, not a panic. The call returns for every offset
  that is not negative; a negative offset is a slice expression out of range. \<open>ReadAt\<close>
  assigns no field of the node, which is why the model returns none.
\<close>

theorem ReadAt_result:
  "\<not> dir node \<Longrightarrow>
     (ReadAt node p off = Inr (n, err, p') \<longrightarrow>
        0 \<le> off
        \<and> (int (len (contents node)) < off \<longrightarrow> n = 0 \<and> err = Some EOF \<and> p' = p)
        \<and> (off \<le> int (len (contents node)) \<longrightarrow>
             n = min (length p) (len (contents node) - nat off)
             \<and> p' = take n (drop (nat off) (elems (contents node))) @ drop n p
             \<and> (err = Some EOF \<longleftrightarrow> n < length p)))
   \<and> (0 \<le> off \<longrightarrow> (\<exists>r. ReadAt node p off = Inr r))
   \<and> (off < 0 \<longrightarrow> ReadAt node p off = Inl SliceBoundsOutOfRange)"
proof -
  assume f: "\<not> dir node"
  consider "off < 0" | "0 \<le> off" "off \<le> int (len (contents node))" | "int (len (contents node)) < off"
    by linarith
  then show ?thesis
  proof cases
    case 1
    with ReadAt_negative [OF f, of off p] show ?thesis by simp
  next
    case 2
    with ReadAt_near [OF f, of off p] show ?thesis by auto
  next
    case 3
    with ReadAt_far [OF f, of off p] show ?thesis by auto
  qed
qed

theorem ReadAt_result_witness:
  "\<not> dir sample_file
   \<and> ReadAt sample_file [9, 9, 9] 3 = Inr (2, Some EOF, [4, 5, 9])
   \<and> (0::int) \<le> 3 \<and> 3 \<le> int (len (contents sample_file))
   \<and> 2 = min (length [9, 9, 9 :: byte]) (len (contents sample_file) - nat 3)
   \<and> [4, 5, 9] = take 2 (drop (nat 3) (elems (contents sample_file))) @ drop 2 [9, 9, 9]
   \<and> ReadAt sample_file [9, 9] 7 = Inr (0, Some EOF, [9, 9])
   \<and> int (len (contents sample_file)) < 7
   \<and> ReadAt sample_file [9, 9] 1 = Inr (2, None, [2, 3])
   \<and> (- 1 :: int) < 0
   \<and> ReadAt sample_file [9] (- 1) = Inl SliceBoundsOutOfRange"
proof -
  have f: "\<not> dir sample_file" by (simp add: sample_file_def)
  have l: "len (contents sample_file) = 5" "elems (contents sample_file) = [1, 2, 3, 4, 5]"
    by (simp_all add: sample_file_def len_def)
  have r: "ReadAt sample_file [9, 9, 9] 3 = Inr (2, Some EOF, [4, 5, 9])"
    "ReadAt sample_file [9, 9] 7 = Inr (0, Some EOF, [9, 9])"
    "ReadAt sample_file [9, 9] 1 = Inr (2, None, [2, 3])"
    by (simp_all add: ReadAt_def sample_file_def len_def slice_from_def copy_def Let_def)
  from ReadAt_result [OF f, of "[9, 9, 9]" 3 2 "Some EOF" "[4, 5, 9]"] r(1) l
  have "2 = min (length [9, 9, 9 :: byte]) (len (contents sample_file) - nat 3)
      \<and> [4, 5, 9] = take 2 (drop (nat 3) (elems (contents sample_file))) @ drop 2 [9, 9, 9]"
    by simp
  moreover from ReadAt_result [OF f, of "[9]" "- 1" 0 None "[]"]
  have "ReadAt sample_file [9] (- 1) = Inl SliceBoundsOutOfRange" by simp
  ultimately show ?thesis using f r l by simp
qed

subsection \<open>WriteAt\<close>

lemma int64_wrap_id: "0 \<le> k \<Longrightarrow> k < 2 ^ 63 \<Longrightarrow> int64_wrap k = k"
  by (simp add: int64_wrap_def signed_take_bit_int_eq_self)

lemma int64_wrap_less: "int64_wrap k < 2 ^ 63"
  using signed_take_bit_int_less_exp [of 63 k] by (simp add: int64_wrap_def)

lemma copy_all: "length dst \<ge> length p \<Longrightarrow> copy dst p = (length p, p @ drop (length p) dst)"
  by (simp add: copy_def Let_def min_def)

lemma ensure_len_eq:
  "ensure_len can_alloc node newLen =
     (if int (len (contents node)) < newLen then
        (if \<not> can_alloc (nat (newLen - int (len (contents node)))) then
           Inl MakesliceLenOutOfRange
         else if \<not> can_alloc (nat newLen) then Inl GrowsliceLenOutOfRange
         else
           Inr (node\<lparr>contents := Some (elems (contents node)
                                          @ replicate (nat (newLen - int (len (contents node)))) 0),
                     attributes := (attributes node)\<lparr>Size := of_int newLen\<rparr>\<rparr>))
      else Inr node)"
proof (cases "int (len (contents node)) < newLen")
  case True
  then have "len (contents node) + nat (newLen - int (len (contents node))) = nat newLen"
    by linarith
  with True show ?thesis
    by (simp add: ensure_len_def make_bytes_def append_bytes_def append_slice_def)
next
  case False
  then show ?thesis by (simp add: ensure_len_def)
qed

lemma ensure_len_small:
  assumes "ensure_len can_alloc node (int64_wrap k) = Inr in2" "len (contents node) < 2 ^ 63"
  shows "int (len (contents in2)) < 2 ^ 63"
proof (cases "int (len (contents node)) < int64_wrap k")
  case True
  with assms(1) have "int (len (contents in2)) = int64_wrap k"
    by (auto simp: ensure_len_eq len_elems split: if_splits)
  then show ?thesis using int64_wrap_less [of k] by simp
next
  case False
  with assms show ?thesis by (simp add: ensure_len_eq)
qed

lemma WriteAt_unfold:
  assumes "\<not> dir node"
  shows "WriteAt can_alloc now node p off =
     (case ensure_len can_alloc (node\<lparr>attributes := (attributes node)\<lparr>Mtime := now\<rparr>\<rparr>)
             (int64_wrap (off + int (length p))) of
        Inl pn \<Rightarrow> Inl pn
      | Inr in2 \<Rightarrow>
          (case slice_from (contents in2) off of
             Inl pn \<Rightarrow> Inl pn
           | Inr dst \<Rightarrow>
               (case copy dst p of
                  (n, dst') \<Rightarrow>
                    if n \<noteq> length p then Inl UnexpectedShortCopy
                    else Inr (n, in2\<lparr>contents :=
                                       map_option (\<lambda>c. take (nat off) c @ dst')
                                         (contents in2)\<rparr>))))"
  using assms by (simp add: WriteAt_def)

lemma WriteAt_Inr_range:
  assumes "\<not> dir node" "len (contents node) < 2 ^ 63"
    "WriteAt can_alloc now node p off = Inr r"
  shows "0 \<le> off \<and> off + int (length p) < 2 ^ 63
       \<and> (len (contents node) < nat off + length p
            \<longrightarrow> can_grow can_alloc (len (contents node)) (nat off + length p))"
proof -
  let ?in1 = "node\<lparr>attributes := (attributes node)\<lparr>Mtime := now\<rparr>\<rparr>"
  note u = WriteAt_unfold [OF assms(1), of can_alloc now p off]
  from assms(3) u obtain in2 where
    e: "ensure_len can_alloc ?in1 (int64_wrap (off + int (length p))) = Inr in2"
    by (cases "ensure_len can_alloc ?in1 (int64_wrap (off + int (length p)))") auto
  have small: "int (len (contents in2)) < 2 ^ 63"
    using ensure_len_small [OF e] assms(2) by simp
  from assms(3) u e obtain dst where s: "slice_from (contents in2) off = Inr dst"
    by (cases "slice_from (contents in2) off") auto
  then have o: "0 \<le> off" "off \<le> int (len (contents in2))"
    "dst = drop (nat off) (elems (contents in2))"
    by (auto simp: slice_from_def split: if_splits)
  from assms(3) u e s have "fst (copy dst p) = length p"
    by (auto split: prod.splits if_splits)
  then have "length p \<le> length dst" by (simp add: copy_def Let_def)
  with o have fit: "nat off + length p \<le> len (contents in2)" by (simp add: len_elems)
  with small o(1) have r: "off + int (length p) < 2 ^ 63" by linarith
  have w: "int64_wrap (off + int (length p)) = int (nat off + length p)"
    using o(1) r by (simp add: int64_wrap_id)
  have "can_grow can_alloc (len (contents node)) (nat off + length p)"
    if lt: "len (contents node) < nat off + length p"
  proof (rule ccontr)
    assume n: "\<not> can_grow can_alloc (len (contents node)) (nat off + length p)"
    have "nat (int (nat off + length p) - int (len (contents node)))
        = nat off + length p - len (contents node)"
      by linarith
    moreover have "int (len (contents node)) < int (nat off + length p)" using lt by linarith
    ultimately have "\<exists>pn. ensure_len can_alloc ?in1 (int (nat off + length p)) = Inl pn"
      using n by (simp add: ensure_len_eq can_grow_def del: of_nat_add)
    with e w show False by auto
  qed
  with o(1) r show ?thesis by blast
qed

lemma WriteAt_no_memory:
  assumes "\<not> dir node" "0 \<le> off" "off + int (length p) < 2 ^ 63"
    "len (contents node) < nat off + length p"
    "\<not> can_grow can_alloc (len (contents node)) (nat off + length p)"
  shows "WriteAt can_alloc now node p off =
     Inl (if can_alloc (nat off + length p - len (contents node))
          then GrowsliceLenOutOfRange else MakesliceLenOutOfRange)"
proof -
  let ?in1 = "node\<lparr>attributes := (attributes node)\<lparr>Mtime := now\<rparr>\<rparr>"
  have w: "int64_wrap (off + int (length p)) = int (nat off + length p)"
    using assms(2,3) by (simp add: int64_wrap_id)
  have "nat (int (nat off + length p) - int (len (contents node)))
      = nat off + length p - len (contents node)"
    by linarith
  moreover have "int (len (contents node)) < int (nat off + length p)"
    using assms(4) by linarith
  ultimately have "ensure_len can_alloc ?in1 (int (nat off + length p))
      = Inl (if can_alloc (nat off + length p - len (contents node))
          then GrowsliceLenOutOfRange else MakesliceLenOutOfRange)"
    using assms(5) by (simp add: ensure_len_eq can_grow_def del: of_nat_add)
  then show ?thesis
    unfolding WriteAt_unfold [OF assms(1)] w by simp
qed

lemma WriteAt_valid:
  assumes "\<not> dir node" "0 \<le> off" "off + int (length p) < 2 ^ 63"
    and al: "len (contents node) < nat off + length p
             \<longrightarrow> can_grow can_alloc (len (contents node)) (nat off + length p)"
  shows "\<exists>node'. WriteAt can_alloc now node p off = Inr (length p, node')
     \<and> elems (contents node') = written (elems (contents node)) p (nat off)
     \<and> attributes node' =
          (if len (contents node) < nat off + length p
           then (attributes node)\<lparr>Mtime := now, Size := of_nat (nat off + length p)\<rparr>
           else (attributes node)\<lparr>Mtime := now\<rparr>)
     \<and> dir node' = dir node \<and> linkCount node' = linkCount node \<and> entries node' = entries node"
proof -
  let ?c = "elems (contents node)" and ?m = "nat off + length p"
  let ?in1 = "node\<lparr>attributes := (attributes node)\<lparr>Mtime := now\<rparr>\<rparr>"
  define c2 where "c2 = (if len (contents node) < ?m
                   then Some (?c @ replicate (?m - len (contents node)) 0)
                   else contents node)"
  define a2 where "a2 = (if len (contents node) < ?m
                   then (attributes node)\<lparr>Mtime := now, Size := of_nat ?m\<rparr>
                   else (attributes node)\<lparr>Mtime := now\<rparr>)"
  have w: "int64_wrap (off + int (length p)) = int ?m"
    using assms(2,3) by (simp add: int64_wrap_id)
  have pad: "nat (int ?m - int (len (contents node))) = ?m - len (contents node)"
    by linarith
  have lt: "int (len (contents node)) < int ?m \<longleftrightarrow> len (contents node) < ?m"
    by linarith
  have e: "ensure_len can_alloc ?in1 (int ?m) = Inr (?in1\<lparr>contents := c2, attributes := a2\<rparr>)"
  proof (cases "len (contents node) < ?m")
    case True
    with al have "can_alloc (?m - len (contents node))" "can_alloc ?m"
      by (simp_all add: can_grow_def)
    with True show ?thesis
      unfolding ensure_len_eq c2_def a2_def
      by (simp add: pad lt del: of_nat_add)
  next
    case False
    then show ?thesis
      unfolding ensure_len_eq c2_def a2_def
      by (simp add: lt del: of_nat_add)
  qed
  have u: "WriteAt can_alloc now node p off =
     (case slice_from c2 off of
        Inl pn \<Rightarrow> Inl pn
      | Inr dst \<Rightarrow>
          (case copy dst p of
             (n, dst') \<Rightarrow>
               if n \<noteq> length p then Inl UnexpectedShortCopy
               else Inr (n, node\<lparr>attributes := a2,
                                  contents := map_option (\<lambda>c. take (nat off) c @ dst') c2\<rparr>)))"
    unfolding WriteAt_unfold [OF assms(1)] w e
    by (simp cong: sum.case_cong prod.case_cong if_cong)
  have e2: "elems c2 = ?c @ replicate (?m - length ?c) 0"
    by (simp add: c2_def len_elems)
  have l2: "?m \<le> length (elems c2)" by (simp add: e2)
  have s: "slice_from c2 off = Inr (drop (nat off) (elems c2))"
    using assms(2) l2 by (simp add: slice_from_def len_elems)
  have "length p \<le> length (drop (nat off) (elems c2))" using l2 by simp
  from copy_all [OF this]
  have cp: "copy (drop (nat off) (elems c2)) p = (length p, p @ drop ?m ?c)"
    by (simp add: e2 add.commute)
  have r: "WriteAt can_alloc now node p off =
      Inr (length p, node\<lparr>attributes := a2,
             contents := map_option (\<lambda>c. take (nat off) c @ p @ drop ?m ?c) c2\<rparr>)"
    by (simp add: u s cp)
  have "elems (map_option (\<lambda>c. take (nat off) c @ p @ drop ?m ?c) c2)
      = written ?c p (nat off)"
  proof (cases c2)
    case None
    then have "elems c2 = []" by simp
    with l2 e2 None show ?thesis by (simp add: written_def)
  next
    case (Some x)
    with e2 show ?thesis by (simp add: written_def)
  qed
  with r show ?thesis by (simp add: a2_def)
qed

lemma length_written:
  "length (written c p off) = max (length c) (off + length p)"
  by (simp add: written_def)

lemma written_gap:
  "length c \<le> i \<Longrightarrow> i < off \<Longrightarrow> written c p off ! i = 0"
proof -
  assume a: "length c \<le> i" "i < off"
  then have "i - length c < off - length c" by linarith
  with a show ?thesis by (simp add: written_def nth_append)
qed

lemma written_before:
  "i < off \<Longrightarrow> i < length c \<Longrightarrow> written c p off ! i = c ! i"
  by (simp add: written_def nth_append)

lemma written_data:
  "take (length p) (drop off (written c p off)) = p"
  by (simp add: written_def)

lemma written_after:
  "drop (off + length p) (written c p off) = drop (off + length p) c"
  by (simp add: written_def)

lemma unat_of_nat_64: "n < 2 ^ 64 \<Longrightarrow> unat (of_nat n :: 64 word) = n"
  by (subst unat_of_nat) simp

lemma WriteAt_post:
  assumes f: "\<not> dir node" and sz: "Size (attributes node) = of_nat (len (contents node))"
    and small: "len (contents node) < 2 ^ 63"
    and v: "0 \<le> off" "off + int (length p) < 2 ^ 63"
    and al: "len (contents node) < nat off + length p
             \<longrightarrow> can_grow can_alloc (len (contents node)) (nat off + length p)"
    and w: "WriteAt can_alloc now node p off = Inr (n, node')"
  shows "n = length p"
    and "elems (contents node') = written (elems (contents node)) p (nat off)"
    and "unat (Size (attributes node')) = max (unat (Size (attributes node))) (nat off + length p)"
    and "Size (attributes node') = of_nat (len (contents node'))"
    and "Mtime (attributes node') = now"
    and "\<not> dir node'"
proof -
  from WriteAt_valid [where can_alloc = can_alloc and now = now, OF f v al] w
  have n: "n = length p"
    and e: "elems (contents node') = written (elems (contents node)) p (nat off)"
    and a: "attributes node' =
          (if len (contents node) < nat off + length p
           then (attributes node)\<lparr>Mtime := now, Size := of_nat (nat off + length p)\<rparr>
           else (attributes node)\<lparr>Mtime := now\<rparr>)"
    and d: "dir node' = dir node"
    by auto
  show "n = length p" by (rule n)
  show "elems (contents node') = written (elems (contents node)) p (nat off)" by (rule e)
  show "Mtime (attributes node') = now" using a by simp
  show "\<not> dir node'" using d f by simp
  have "off + int (length p) < 2 ^ 64" using v(2) by simp
  then have "int (nat off + length p) < int (2 ^ 64)" using v(1) by simp
  then have m: "nat off + length p < 2 ^ 64" by (simp only: of_nat_less_iff)
  have l: "len (contents node) < 2 ^ 64" using small by simp
  have u: "unat (Size (attributes node)) = len (contents node)"
    using unat_of_nat_64 [OF l] sz by simp
  show "unat (Size (attributes node')) = max (unat (Size (attributes node))) (nat off + length p)"
  proof (cases "len (contents node) < nat off + length p")
    case True
    with a have "Size (attributes node') = of_nat (nat off + length p)" by simp
    then have "unat (Size (attributes node')) = nat off + length p"
      using unat_of_nat_64 [OF m] by simp
    with True u show ?thesis by simp
  next
    case False
    with a have "Size (attributes node') = Size (attributes node)" by simp
    with False u show ?thesis by simp
  qed
  have l': "len (contents node') = max (len (contents node)) (nat off + length p)"
    using e by (simp add: len_elems length_written)
  show "Size (attributes node') = of_nat (len (contents node'))"
  proof (cases "len (contents node) < nat off + length p")
    case True
    with a l' show ?thesis by simp
  next
    case False
    with a l' sz show ?thesis by (simp add: max_def)
  qed
qed

text \<open>
  Claim C7. Let a file node satisfy \<open>attributes.Size == len(contents)\<close> (with a length
  below \<open>2^63\<close>, as every Go slice has). Whenever \<open>WriteAt p off\<close> returns, it returns
  \<open>n = len p\<close>; the size attribute is \<open>max (old size) (off + len p)\<close> and again equal to the
  length of the contents; the bytes between the old end of the file and \<open>off\<close> are zero;
  the contents hold \<open>p\<close> from \<open>off\<close> on; the bytes before \<open>off\<close> and beyond the end of \<open>p\<close>
  are as before; the modification time is the clock reading; and \<open>ReadAt\<close> at \<open>off\<close> into
  any buffer as long as \<open>p\<close> returns \<open>len p\<close>, no error and the bytes \<open>p\<close>. A short copy is
  the panic \<open>UnexpectedShortCopy\<close>, never a returned count. The call returns exactly when
  \<open>off\<close> is not negative, \<open>off + len p\<close> is below \<open>2^63\<close> and, where the file has to grow,
  the runtime provides the padding and the grown slice; where it does not, \<open>make\<close> or
  \<open>append\<close> panics.
\<close>

theorem WriteAt_result:
  "\<not> dir node \<Longrightarrow> Size (attributes node) = of_nat (len (contents node))
   \<Longrightarrow> len (contents node) < 2 ^ 63 \<Longrightarrow>
     (WriteAt can_alloc now node p off = Inr (n, node') \<longrightarrow>
        0 \<le> off \<and> n = length p
      \<and> unat (Size (attributes node')) = max (unat (Size (attributes node))) (nat off + length p)
      \<and> Size (attributes node') = of_nat (len (contents node'))
      \<and> len (contents node') = max (len (contents node)) (nat off + length p)
      \<and> (\<forall>i. len (contents node) \<le> i \<and> i < nat off \<longrightarrow> elems (contents node') ! i = 0)
      \<and> take (length p) (drop (nat off) (elems (contents node'))) = p
      \<and> (\<forall>i. i < nat off \<and> i < len (contents node)
            \<longrightarrow> elems (contents node') ! i = elems (contents node) ! i)
      \<and> drop (nat off + length p) (elems (contents node'))
          = drop (nat off + length p) (elems (contents node))
      \<and> (\<forall>q. length q = length p \<longrightarrow> ReadAt node' q off = Inr (length p, None, p))
      \<and> Mtime (attributes node') = now \<and> \<not> dir node')
   \<and> ((\<exists>r. WriteAt can_alloc now node p off = Inr r) \<longleftrightarrow>
        0 \<le> off \<and> off + int (length p) < 2 ^ 63
        \<and> (len (contents node) < nat off + length p
             \<longrightarrow> can_grow can_alloc (len (contents node)) (nat off + length p)))
   \<and> (0 \<le> off \<and> off + int (length p) < 2 ^ 63
        \<and> len (contents node) < nat off + length p
        \<and> \<not> can_grow can_alloc (len (contents node)) (nat off + length p)
        \<longrightarrow> WriteAt can_alloc now node p off =
              Inl (if can_alloc (nat off + length p - len (contents node))
                   then GrowsliceLenOutOfRange else MakesliceLenOutOfRange))"
proof -
  assume f: "\<not> dir node" and sz: "Size (attributes node) = of_nat (len (contents node))"
    and small: "len (contents node) < 2 ^ 63"
  have post: "0 \<le> off \<and> n = length p
      \<and> unat (Size (attributes node')) = max (unat (Size (attributes node))) (nat off + length p)
      \<and> Size (attributes node') = of_nat (len (contents node'))
      \<and> len (contents node') = max (len (contents node)) (nat off + length p)
      \<and> (\<forall>i. len (contents node) \<le> i \<and> i < nat off \<longrightarrow> elems (contents node') ! i = 0)
      \<and> take (length p) (drop (nat off) (elems (contents node'))) = p
      \<and> (\<forall>i. i < nat off \<and> i < len (contents node)
            \<longrightarrow> elems (contents node') ! i = elems (contents node) ! i)
      \<and> drop (nat off + length p) (elems (contents node'))
          = drop (nat off + length p) (elems (contents node))
      \<and> (\<forall>q. length q = length p \<longrightarrow> ReadAt node' q off = Inr (length p, None, p))
      \<and> Mtime (attributes node') = now \<and> \<not> dir node'"
    if w: "WriteAt can_alloc now node p off = Inr (n, node')"
  proof -
    from WriteAt_Inr_range [OF f small w] have v: "0 \<le> off" "off + int (length p) < 2 ^ 63"
      and al: "len (contents node) < nat off + length p
             \<longrightarrow> can_grow can_alloc (len (contents node)) (nat off + length p)"
      by simp_all
    note p = WriteAt_post [where can_alloc = can_alloc, OF f sz small v al w]
    have l': "len (contents node') = max (len (contents node)) (nat off + length p)"
      using p(2) by (simp add: len_elems length_written)
    have r: "ReadAt node' q off = Inr (length p, None, p)" if q: "length q = length p" for q
    proof -
      have le: "off \<le> int (len (contents node'))" using l' v(1) by linarith
      have "nat off + length p \<le> len (contents node')" using l' by simp
      then have mn: "min (length q) (len (contents node') - nat off) = length p"
        using q by simp
      from ReadAt_near [OF p(6) v(1) le, of q] show ?thesis
        unfolding mn using q p(2) by (simp add: written_data)
    qed
    show ?thesis
      using v(1) p(1,3,4,5,6) l' r p(2)
      by (simp add: written_gap written_before written_data written_after len_elems)
  qed
  have ret: "(\<exists>r. WriteAt can_alloc now node p off = Inr r) \<longleftrightarrow>
        0 \<le> off \<and> off + int (length p) < 2 ^ 63
        \<and> (len (contents node) < nat off + length p
             \<longrightarrow> can_grow can_alloc (len (contents node)) (nat off + length p))"
  proof
    assume "\<exists>r. WriteAt can_alloc now node p off = Inr r"
    then obtain r where "WriteAt can_alloc now node p off = Inr r" ..
    from WriteAt_Inr_range [OF f small this] show "0 \<le> off \<and> off + int (length p) < 2 ^ 63
        \<and> (len (contents node) < nat off + length p
             \<longrightarrow> can_grow can_alloc (len (contents node)) (nat off + length p))" .
  next
    assume a: "0 \<le> off \<and> off + int (length p) < 2 ^ 63
        \<and> (len (contents node) < nat off + length p
             \<longrightarrow> can_grow can_alloc (len (contents node)) (nat off + length p))"
    then have "0 \<le> off" "off + int (length p) < 2 ^ 63"
      "len (contents node) < nat off + length p
             \<longrightarrow> can_grow can_alloc (len (contents node)) (nat off + length p)"
      by simp_all
    from WriteAt_valid [where can_alloc = can_alloc and now = now, OF f this]
    show "\<exists>r. WriteAt can_alloc now node p off = Inr r" by blast
  qed
  have nomem: "WriteAt can_alloc now node p off =
              Inl (if can_alloc (nat off + length p - len (contents node))
                   then GrowsliceLenOutOfRange else MakesliceLenOutOfRange)"
    if "0 \<le> off" "off + int (length p) < 2 ^ 63" "len (contents node) < nat off + length p"
      "\<not> can_grow can_alloc (len (contents node)) (nat off + length p)"
    using WriteAt_no_memory [where can_alloc = can_alloc, OF f that] .
  from post ret nomem show ?thesis by blast
qed

theorem WriteAt_result_witness:
  "\<not> dir empty_file
   \<and> Size (attributes empty_file) = of_nat (len (contents empty_file))
   \<and> len (contents empty_file) < 2 ^ 63
   \<and> WriteAt small_heap 5 empty_file [1, 2, 3] 2 = Inr (3, written_file)
   \<and> ((0::int) \<le> 2 \<and> 2 + int (length [1, 2, 3 :: byte]) < 2 ^ 63
        \<and> len (contents empty_file) < nat 2 + length [1, 2, 3 :: byte]
        \<and> can_grow small_heap (len (contents empty_file)) (nat 2 + length [1, 2, 3 :: byte]))
   \<and> unat (Size (attributes written_file)) = 5
   \<and> len (contents written_file) = 5
   \<and> elems (contents written_file) = [0, 0, 1, 2, 3]
   \<and> length [9, 9, 9 :: byte] = length [1, 2, 3 :: byte]
   \<and> ReadAt written_file [9, 9, 9] 2 = Inr (3, None, [1, 2, 3])
   \<and> ReadAt written_file [9, 9, 9, 9, 9] 0 = Inr (5, None, [0, 0, 1, 2, 3])
   \<and> ((0::int) \<le> 2 ^ 62 \<and> 2 ^ 62 + int (length [1 :: byte]) < 2 ^ 63
        \<and> len (contents empty_file) < nat (2 ^ 62) + length [1 :: byte]
        \<and> \<not> can_grow small_heap (len (contents empty_file)) (nat (2 ^ 62) + length [1 :: byte])
        \<and> \<not> small_heap (nat (2 ^ 62) + length [1 :: byte] - len (contents empty_file)))
   \<and> WriteAt small_heap 5 empty_file [1] (2 ^ 62) = Inl MakesliceLenOutOfRange"
proof -
  have f: "\<not> dir empty_file"
    by (simp add: empty_file_def newInode_def file_attrs_def ModeDir_def)
  have c: "contents empty_file = None" by (simp add: empty_file_def newInode_def)
  have sz: "Size (attributes empty_file) = of_nat (len (contents empty_file))"
    by (simp add: empty_file_def newInode_def file_attrs_def len_def)
  have small: "len (contents empty_file) < 2 ^ 63" by (simp add: c len_def)
  have w: "WriteAt small_heap 5 empty_file [1, 2, 3] 2 = Inr (3, written_file)"
    by (simp add: WriteAt_def ensure_len_def make_bytes_def append_bytes_def small_heap_def
        empty_file_def
        newInode_def file_attrs_def ModeDir_def written_file_def int64_wrap_def len_def
        append_slice_def slice_from_def copy_def Let_def numeral_3_eq_3 numeral_2_eq_2)
  have e: "elems (contents written_file) = [0, 0, 1, 2, 3]" "len (contents written_file) = 5"
    "unat (Size (attributes written_file)) = 5"
    by (simp_all add: written_file_def len_def)
  have r: "ReadAt written_file [9, 9, 9, 9, 9] 0 = Inr (5, None, [0, 0, 1, 2, 3])"
    by (simp add: ReadAt_def written_file_def len_def slice_from_def copy_def Let_def)
  have big: "(0::int) \<le> 2 ^ 62 \<and> 2 ^ 62 + int (length [1 :: byte]) < 2 ^ 63
        \<and> len (contents empty_file) < nat (2 ^ 62) + length [1 :: byte]
        \<and> \<not> can_grow small_heap (len (contents empty_file)) (nat (2 ^ 62) + length [1 :: byte])
        \<and> \<not> small_heap (nat (2 ^ 62) + length [1 :: byte] - len (contents empty_file))"
    by (simp add: c len_def small_heap_def can_grow_def)
  have ok: "(0::int) \<le> 2 \<and> 2 + int (length [1, 2, 3 :: byte]) < 2 ^ 63
        \<and> len (contents empty_file) < nat 2 + length [1, 2, 3 :: byte]
        \<and> can_grow small_heap (len (contents empty_file)) (nat 2 + length [1, 2, 3 :: byte])"
    by (simp add: c len_def small_heap_def can_grow_def)
  from WriteAt_result [OF f sz small, of small_heap 5 "[1, 2, 3]" 2 3 written_file] w
  have "ReadAt written_file [9, 9, 9] 2 = Inr (3, None, [1, 2, 3])" by simp
  moreover have "WriteAt small_heap 5 empty_file [1] (2 ^ 62) = Inl MakesliceLenOutOfRange"
  proof -
    from big
    have nb: "\<not> small_heap (nat (2 ^ 62) + length [1 :: byte] - len (contents empty_file))"
      by blast
    from WriteAt_result [OF f sz small, of small_heap 5 "[1]" "2 ^ 62" 0 empty_file] big
    have "WriteAt small_heap 5 empty_file [1] (2 ^ 62) =
        Inl (if small_heap (nat (2 ^ 62) + length [1 :: byte] - len (contents empty_file))
             then GrowsliceLenOutOfRange else MakesliceLenOutOfRange)"
      by blast
    then show ?thesis by (simp only: nb if_False)
  qed
  moreover have "length [9, 9, 9 :: byte] = length [1, 2, 3 :: byte]" by simp
  ultimately show ?thesis using f sz small w e r big ok by blast
qed

section \<open>Properties of SetAttributes\<close>

lemma sint_nonneg_uint: "0 \<le> sint (w :: 64 word) \<Longrightarrow> sint w = uint w"
proof -
  assume a: "0 \<le> sint w"
  have s: "sint w = signed_take_bit 63 (uint w)"
    using sint_uint [of w] by simp
  with a have nb: "\<not> bit (uint w) 63"
    by simp
  then have "sint w = take_bit 63 (uint w)"
    using s by (simp add: signed_take_bit_eq_if_positive)
  moreover have "uint w < 2 ^ 64" using uint_lt2p [of w] by simp
  then have f: "take_bit (Suc 63) (uint w) = uint w"
    by (simp add: take_bit_int_eq_self)
  have e: "take_bit (Suc 63) (uint w) = take_bit 63 (uint w)"
    using take_bit_Suc_from_most [of 63 "uint w"] nb by simp
  from e f have "take_bit 63 (uint w) = uint w" by (simp only:)
  ultimately show ?thesis by simp
qed

lemma unat_sint: "0 \<le> sint (w :: 64 word) \<Longrightarrow> nat (sint w) = unat w"
  using sint_nonneg_uint [of w] by simp

lemma truncate_to_negative:
  "sint sz < 0 \<Longrightarrow> truncate_to can_alloc node sz = Inl SliceBoundsOutOfRange"
  by (simp add: truncate_to_def Let_def slice_to_def)

lemma truncate_to_eq:
  assumes "0 \<le> sint sz"
  shows "truncate_to can_alloc node sz =
     (if unat sz \<le> len (contents node) then
        Inr (node\<lparr>contents := map_option (take (unat sz)) (contents node),
                  attributes := (attributes node)\<lparr>Size := sz\<rparr>\<rparr>)
      else if \<not> can_alloc (unat sz - len (contents node)) then Inl MakesliceLenOutOfRange
      else if \<not> can_alloc (unat sz) then Inl GrowsliceLenOutOfRange
      else
        Inr (node\<lparr>contents := Some (elems (contents node)
                                      @ replicate (unat sz - len (contents node)) 0),
                  attributes := (attributes node)\<lparr>Size := sz\<rparr>\<rparr>))"
proof -
  note n = unat_sint [OF assms]
  show ?thesis
  proof (cases "unat sz \<le> len (contents node)")
    case True
    then have "sint sz \<le> int (len (contents node))" using n assms by linarith
    then show ?thesis using True assms
      by (simp add: truncate_to_def Let_def slice_to_def n)
  next
    case False
    then have a: "\<not> sint sz \<le> int (len (contents node))" using n assms by linarith
    then have a': "\<not> sint sz - int (len (contents node)) < 0" by linarith
    have b: "nat (sint sz - int (len (contents node))) = unat sz - len (contents node)"
      using n assms by linarith
    have c: "len (contents node) + (unat sz - len (contents node)) = unat sz"
      using False by linarith
    from False have "replicate (unat sz - len (contents node)) (0::byte) \<noteq> []" by simp
    then show ?thesis using False a a'
      by (simp add: truncate_to_def Let_def b c make_bytes_def append_bytes_def append_slice_def)
  qed
qed

lemma truncate_to_valid:
  assumes "0 \<le> sint sz"
    and al: "len (contents node) < unat sz
             \<longrightarrow> can_grow can_alloc (len (contents node)) (unat sz)"
  shows "truncate_to can_alloc node sz =
     Inr (node\<lparr>contents :=
                 (if unat sz \<le> len (contents node)
                  then map_option (take (unat sz)) (contents node)
                  else Some (elems (contents node)
                               @ replicate (unat sz - len (contents node)) 0)),
               attributes := (attributes node)\<lparr>Size := sz\<rparr>\<rparr>)"
  using al by (simp add: truncate_to_eq [OF assms(1)] can_grow_def)

lemma truncate_to_no_memory:
  assumes "0 \<le> sint sz" "len (contents node) < unat sz"
    "\<not> can_grow can_alloc (len (contents node)) (unat sz)"
  shows "truncate_to can_alloc node sz =
     Inl (if can_alloc (unat sz - len (contents node))
          then GrowsliceLenOutOfRange else MakesliceLenOutOfRange)"
  using assms(2,3) by (simp add: truncate_to_eq [OF assms(1)] can_grow_def)

lemma truncate_to_Inr_range:
  assumes "truncate_to can_alloc node sz = Inr node'"
  shows "0 \<le> sint sz"
    and "len (contents node) < unat sz \<longrightarrow> can_grow can_alloc (len (contents node)) (unat sz)"
proof -
  show nn: "0 \<le> sint sz"
  proof (rule ccontr)
    assume "\<not> 0 \<le> sint sz"
    then have "truncate_to can_alloc node sz = Inl SliceBoundsOutOfRange"
      by (simp add: truncate_to_negative)
    with assms show False by simp
  qed
  show "len (contents node) < unat sz \<longrightarrow> can_grow can_alloc (len (contents node)) (unat sz)"
  proof (rule ccontr)
    assume "\<not> (len (contents node) < unat sz
                 \<longrightarrow> can_grow can_alloc (len (contents node)) (unat sz))"
    then have "len (contents node) < unat sz"
      "\<not> can_grow can_alloc (len (contents node)) (unat sz)"
      by simp_all
    from truncate_to_no_memory [OF nn this] assms show False by simp
  qed
qed

lemma truncate_to_elems:
  assumes "truncate_to can_alloc node sz = Inr node'"
  shows "elems (contents node') =
           take (unat sz) (elems (contents node)) @ replicate (unat sz - len (contents node)) 0"
    and "len (contents node') = unat sz"
    and "attributes node' = (attributes node)\<lparr>Size := sz\<rparr>"
    and "dir node' = dir node" "linkCount node' = linkCount node" "entries node' = entries node"
proof -
  note r = truncate_to_Inr_range [OF assms]
  from truncate_to_valid [OF r] assms
  have n': "node' = node\<lparr>contents :=
                 (if unat sz \<le> len (contents node)
                  then map_option (take (unat sz)) (contents node)
                  else Some (elems (contents node)
                               @ replicate (unat sz - len (contents node)) 0)),
               attributes := (attributes node)\<lparr>Size := sz\<rparr>\<rparr>"
    by simp
  show e: "elems (contents node') =
           take (unat sz) (elems (contents node)) @ replicate (unat sz - len (contents node)) 0"
    unfolding n' by (cases "contents node") (simp_all add: len_def)
  show "len (contents node') = unat sz"
    unfolding len_elems [of "contents node'"] e by (simp add: len_elems)
  show "attributes node' = (attributes node)\<lparr>Size := sz\<rparr>"
    "dir node' = dir node" "linkCount node' = linkCount node" "entries node' = entries node"
    unfolding n' by simp_all
qed

lemma SetAttributes_unfold:
  "SetAttributes can_alloc now node newsize mode mtime =
     (case (case newsize of
              None \<Rightarrow> Inr (node\<lparr>attributes := (attributes node)\<lparr>Mtime := now\<rparr>\<rparr>)
            | Some sz \<Rightarrow>
                truncate_to can_alloc (node\<lparr>attributes := (attributes node)\<lparr>Mtime := now\<rparr>\<rparr>) sz) of
        Inl p \<Rightarrow> Inl p
      | Inr in2 \<Rightarrow>
          Inr (in2\<lparr>attributes := (attributes in2)
                 \<lparr>Mode := (case mode of None \<Rightarrow> Mode (attributes in2) | Some m \<Rightarrow> m),
                  Mtime := (case mtime of None \<Rightarrow> Mtime (attributes in2) | Some t \<Rightarrow> t)\<rparr>\<rparr>))"
  by (simp add: SetAttributes_def Let_def split: option.splits sum.splits)

lemma SetAttributes_Inr:
  assumes "SetAttributes can_alloc now node newsize mode mtime = Inr node'"
  obtains in2 where
    "(case newsize of
        None \<Rightarrow> Inr (node\<lparr>attributes := (attributes node)\<lparr>Mtime := now\<rparr>\<rparr>)
      | Some sz \<Rightarrow>
          truncate_to can_alloc (node\<lparr>attributes := (attributes node)\<lparr>Mtime := now\<rparr>\<rparr>) sz)
       = Inr in2"
    "node' = in2\<lparr>attributes := (attributes in2)
                 \<lparr>Mode := (case mode of None \<Rightarrow> Mode (attributes in2) | Some m \<Rightarrow> m),
                  Mtime := (case mtime of None \<Rightarrow> Mtime (attributes in2) | Some t \<Rightarrow> t)\<rparr>\<rparr>"
  using assms unfolding SetAttributes_unfold by (auto split: sum.splits)

lemma SetAttributes_sized:
  assumes "SetAttributes can_alloc now node (Some sz) mode mtime = Inr node'"
  obtains in2 where
    "truncate_to can_alloc (node\<lparr>attributes := (attributes node)\<lparr>Mtime := now\<rparr>\<rparr>) sz = Inr in2"
    "node' = in2\<lparr>attributes := (attributes in2)
                 \<lparr>Mode := (case mode of None \<Rightarrow> Mode (attributes in2) | Some m \<Rightarrow> m),
                  Mtime := (case mtime of None \<Rightarrow> Mtime (attributes in2) | Some t \<Rightarrow> t)\<rparr>\<rparr>"
  using SetAttributes_Inr [OF assms] by auto

lemma SetAttributes_returns:
  "(\<exists>r. SetAttributes can_alloc now node newsize mode mtime = Inr r) \<longleftrightarrow>
     (\<forall>sz. newsize = Some sz \<longrightarrow>
        0 \<le> sint sz
      \<and> (len (contents node) < unat sz
           \<longrightarrow> can_grow can_alloc (len (contents node)) (unat sz)))"
proof (cases newsize)
  case None
  then show ?thesis by (simp add: SetAttributes_unfold)
next
  case (Some sz)
  let ?in1 = "node\<lparr>attributes := (attributes node)\<lparr>Mtime := now\<rparr>\<rparr>"
  show ?thesis
  proof
    assume "\<exists>r. SetAttributes can_alloc now node newsize mode mtime = Inr r"
    then obtain r where "SetAttributes can_alloc now node (Some sz) mode mtime = Inr r"
      using Some by auto
    from SetAttributes_sized [OF this] obtain in2 where
      "truncate_to can_alloc ?in1 sz = Inr in2" by auto
    from truncate_to_Inr_range [OF this] Some
    show "\<forall>sz. newsize = Some sz \<longrightarrow>
        0 \<le> sint sz
      \<and> (len (contents node) < unat sz
           \<longrightarrow> can_grow can_alloc (len (contents node)) (unat sz))"
      by simp
  next
    assume "\<forall>sz. newsize = Some sz \<longrightarrow>
        0 \<le> sint sz
      \<and> (len (contents node) < unat sz
           \<longrightarrow> can_grow can_alloc (len (contents node)) (unat sz))"
    with Some have nn: "0 \<le> sint sz"
      and al: "len (contents ?in1) < unat sz
           \<longrightarrow> can_grow can_alloc (len (contents ?in1)) (unat sz)"
      by simp_all
    from truncate_to_valid [where can_alloc = can_alloc, OF nn al] Some
    show "\<exists>r. SetAttributes can_alloc now node newsize mode mtime = Inr r"
      by (simp add: SetAttributes_unfold)
  qed
qed

lemma SetAttributes_no_memory:
  assumes "0 \<le> sint sz" "len (contents node) < unat sz"
    "\<not> can_grow can_alloc (len (contents node)) (unat sz)"
  shows "SetAttributes can_alloc now node (Some sz) mode mtime =
     Inl (if can_alloc (unat sz - len (contents node))
          then GrowsliceLenOutOfRange else MakesliceLenOutOfRange)"
proof -
  let ?in1 = "node\<lparr>attributes := (attributes node)\<lparr>Mtime := now\<rparr>\<rparr>"
  have "truncate_to can_alloc ?in1 sz =
     Inl (if can_alloc (unat sz - len (contents ?in1))
          then GrowsliceLenOutOfRange else MakesliceLenOutOfRange)"
    using assms(2,3) by (intro truncate_to_no_memory [OF assms(1)]) simp_all
  then show ?thesis by (simp add: SetAttributes_unfold)
qed

lemma truncate_to_kind:
  "truncate_to can_alloc node sz = Inr node' \<Longrightarrow> dir node' = dir node"
  by (rule truncate_to_elems(4))

lemma SetAttributes_kind:
  assumes "SetAttributes can_alloc now node newsize mode mtime = Inr node'"
  shows "dir node' = dir node"
proof -
  from SetAttributes_Inr [OF assms] obtain in2 where
    t: "(case newsize of
          None \<Rightarrow> Inr (node\<lparr>attributes := (attributes node)\<lparr>Mtime := now\<rparr>\<rparr>)
        | Some sz \<Rightarrow>
            truncate_to can_alloc (node\<lparr>attributes := (attributes node)\<lparr>Mtime := now\<rparr>\<rparr>) sz)
        = Inr in2"
    and n': "node' = in2\<lparr>attributes := (attributes in2)
                 \<lparr>Mode := (case mode of None \<Rightarrow> Mode (attributes in2) | Some m \<Rightarrow> m),
                  Mtime := (case mtime of None \<Rightarrow> Mtime (attributes in2) | Some t \<Rightarrow> t)\<rparr>\<rparr>"
    by auto
  have "dir in2 = dir node"
  proof (cases newsize)
    case None
    with t show ?thesis by auto
  next
    case (Some sz)
    with t truncate_to_kind [of can_alloc "node\<lparr>attributes := (attributes node)\<lparr>Mtime := now\<rparr>\<rparr>"
        sz in2]
    show ?thesis by simp
  qed
  then show ?thesis unfolding n' by simp
qed

lemma SetAttributes_post:
  assumes r: "SetAttributes can_alloc now node newsize mode mtime = Inr node'"
  shows "Mtime (attributes node') = (case mtime of None \<Rightarrow> now | Some t \<Rightarrow> t)
    \<and> Mode (attributes node') = (case mode of None \<Rightarrow> Mode (attributes node) | Some m \<Rightarrow> m)
    \<and> Crtime (attributes node') = Crtime (attributes node)
    \<and> dir node' = dir node \<and> linkCount node' = linkCount node \<and> entries node' = entries node
    \<and> (newsize = None \<longrightarrow>
          contents node' = contents node \<and> Size (attributes node') = Size (attributes node))
    \<and> (\<forall>sz. newsize = Some sz \<longrightarrow>
          0 \<le> sint sz
        \<and> Size (attributes node') = sz \<and> len (contents node') = unat sz
        \<and> elems (contents node') =
            take (unat sz) (elems (contents node)) @ replicate (unat sz - len (contents node)) 0)"
proof (cases newsize)
  case None
  with r show ?thesis
    by (auto simp: SetAttributes_unfold split: option.splits)
next
  case (Some sz)
  let ?in1 = "node\<lparr>attributes := (attributes node)\<lparr>Mtime := now\<rparr>\<rparr>"
  from r Some have "SetAttributes can_alloc now node (Some sz) mode mtime = Inr node'" by simp
  from SetAttributes_sized [OF this] obtain in2 where
    t: "truncate_to can_alloc ?in1 sz = Inr in2"
    and n': "node' = in2\<lparr>attributes := (attributes in2)
               \<lparr>Mode := (case mode of None \<Rightarrow> Mode (attributes in2) | Some m \<Rightarrow> m),
                Mtime := (case mtime of None \<Rightarrow> Mtime (attributes in2) | Some t \<Rightarrow> t)\<rparr>\<rparr>"
    by auto
  note nn = truncate_to_Inr_range(1) [OF t]
  note e = truncate_to_elems [OF t]
  show ?thesis using Some nn e unfolding n'
    by (auto split: option.splits)
qed

text \<open>
  Claim C9. Whenever \<open>SetAttributes size mode mtime\<close> returns, the modification time is
  \<open>mtime\<close> if that parameter is present and the clock reading otherwise (the clock reading
  is stored first and the explicit value overwrites it); the mode is \<open>mode\<close> if present and
  unchanged otherwise; if \<open>size\<close> is present, the contents are the old contents cut to
  \<open>size\<close> bytes or extended with zero bytes to \<open>size\<close> bytes, and the size attribute is
  \<open>size\<close>; if it is absent, contents and size attribute are unchanged. Creation time, kind,
  link count and entries are unchanged. The call returns exactly when \<open>size\<close> is absent, or
  fits Go's \<open>int\<close> (is below \<open>2^63\<close>) and, where the contents have to grow, the runtime
  provides the padding and the grown slice; where it does not, \<open>make\<close> or \<open>append\<close>
  panics. The statement does not need the node to be a file.
\<close>

theorem SetAttributes_result:
  "(SetAttributes can_alloc now node newsize mode mtime = Inr node' \<longrightarrow>
      Mtime (attributes node') = (case mtime of None \<Rightarrow> now | Some t \<Rightarrow> t)
    \<and> Mode (attributes node') = (case mode of None \<Rightarrow> Mode (attributes node) | Some m \<Rightarrow> m)
    \<and> Crtime (attributes node') = Crtime (attributes node)
    \<and> dir node' = dir node \<and> linkCount node' = linkCount node \<and> entries node' = entries node
    \<and> (newsize = None \<longrightarrow>
          contents node' = contents node \<and> Size (attributes node') = Size (attributes node))
    \<and> (\<forall>sz. newsize = Some sz \<longrightarrow>
          0 \<le> sint sz
        \<and> Size (attributes node') = sz \<and> len (contents node') = unat sz
        \<and> elems (contents node') =
            take (unat sz) (elems (contents node)) @ replicate (unat sz - len (contents node)) 0))
   \<and> ((\<exists>r. SetAttributes can_alloc now node newsize mode mtime = Inr r) \<longleftrightarrow>
        (\<forall>sz. newsize = Some sz \<longrightarrow>
           0 \<le> sint sz
         \<and> (len (contents node) < unat sz
              \<longrightarrow> can_grow can_alloc (len (contents node)) (unat sz))))
   \<and> (\<forall>sz. newsize = Some sz \<and> 0 \<le> sint sz \<and> len (contents node) < unat sz
           \<and> \<not> can_grow can_alloc (len (contents node)) (unat sz)
        \<longrightarrow> SetAttributes can_alloc now node newsize mode mtime =
              Inl (if can_alloc (unat sz - len (contents node))
                   then GrowsliceLenOutOfRange else MakesliceLenOutOfRange))"
proof (intro conjI)
  show "SetAttributes can_alloc now node newsize mode mtime = Inr node' \<longrightarrow>
      Mtime (attributes node') = (case mtime of None \<Rightarrow> now | Some t \<Rightarrow> t)
    \<and> Mode (attributes node') = (case mode of None \<Rightarrow> Mode (attributes node) | Some m \<Rightarrow> m)
    \<and> Crtime (attributes node') = Crtime (attributes node)
    \<and> dir node' = dir node \<and> linkCount node' = linkCount node \<and> entries node' = entries node
    \<and> (newsize = None \<longrightarrow>
          contents node' = contents node \<and> Size (attributes node') = Size (attributes node))
    \<and> (\<forall>sz. newsize = Some sz \<longrightarrow>
          0 \<le> sint sz
        \<and> Size (attributes node') = sz \<and> len (contents node') = unat sz
        \<and> elems (contents node') =
            take (unat sz) (elems (contents node)) @ replicate (unat sz - len (contents node)) 0)"
    using SetAttributes_post [of can_alloc now node newsize mode mtime node'] by blast
  show "(\<exists>r. SetAttributes can_alloc now node newsize mode mtime = Inr r) \<longleftrightarrow>
        (\<forall>sz. newsize = Some sz \<longrightarrow>
           0 \<le> sint sz
         \<and> (len (contents node) < unat sz
              \<longrightarrow> can_grow can_alloc (len (contents node)) (unat sz)))"
    by (rule SetAttributes_returns)
  show "\<forall>sz. newsize = Some sz \<and> 0 \<le> sint sz \<and> len (contents node) < unat sz
           \<and> \<not> can_grow can_alloc (len (contents node)) (unat sz)
        \<longrightarrow> SetAttributes can_alloc now node newsize mode mtime =
              Inl (if can_alloc (unat sz - len (contents node))
                   then GrowsliceLenOutOfRange else MakesliceLenOutOfRange)"
    using SetAttributes_no_memory [of _ node can_alloc now mode mtime] by blast
qed

theorem SetAttributes_result_witness:
  "SetAttributes small_heap 7 sample_file (Some 3) None (Some 42) =
     Inr \<lparr> dir = False, linkCount = 1,
           attributes = \<lparr>Size = 3, Mode = 420, Mtime = 42, Crtime = 0\<rparr>,
           entries = None, contents = Some [1, 2, 3] \<rparr>
   \<and> 0 \<le> sint (3 :: uint64)
   \<and> take (unat (3 :: uint64)) (elems (contents sample_file))
        @ replicate (unat (3 :: uint64) - len (contents sample_file)) 0 = [1, 2, 3]
   \<and> SetAttributes small_heap 7 sample_file (Some 7) (Some 384) None =
     Inr \<lparr> dir = False, linkCount = 1,
           attributes = \<lparr>Size = 7, Mode = 384, Mtime = 7, Crtime = 0\<rparr>,
           entries = None, contents = Some [1, 2, 3, 4, 5, 0, 0] \<rparr>
   \<and> 0 \<le> sint (7 :: uint64)
   \<and> take (unat (7 :: uint64)) (elems (contents sample_file))
        @ replicate (unat (7 :: uint64) - len (contents sample_file)) 0 = [1, 2, 3, 4, 5, 0, 0]
   \<and> SetAttributes small_heap 7 sample_file None None None =
     Inr \<lparr> dir = False, linkCount = 1,
           attributes = \<lparr>Size = 5, Mode = 420, Mtime = 7, Crtime = 0\<rparr>,
           entries = None, contents = Some [1, 2, 3, 4, 5] \<rparr>
   \<and> 0 \<le> sint (2000 :: uint64) \<and> len (contents sample_file) < unat (2000 :: uint64)
   \<and> \<not> can_grow small_heap (len (contents sample_file)) (unat (2000 :: uint64))
   \<and> \<not> small_heap (unat (2000 :: uint64) - len (contents sample_file))
   \<and> SetAttributes small_heap 7 sample_file (Some 2000) None None = Inl MakesliceLenOutOfRange
   \<and> 0 \<le> sint (1025 :: uint64) \<and> len (contents sample_file) < unat (1025 :: uint64)
   \<and> \<not> can_grow small_heap (len (contents sample_file)) (unat (1025 :: uint64))
   \<and> small_heap (unat (1025 :: uint64) - len (contents sample_file))
   \<and> SetAttributes small_heap 7 sample_file (Some 1025) None None = Inl GrowsliceLenOutOfRange"
proof -
  let ?a = "\<lparr> dir = False, linkCount = 1,
           attributes = \<lparr>Size = 3, Mode = 420, Mtime = 42, Crtime = 0\<rparr>,
           entries = None, contents = Some [1, 2, 3 :: byte] \<rparr>"
  let ?b = "\<lparr> dir = False, linkCount = 1,
           attributes = \<lparr>Size = 7, Mode = 384, Mtime = 7, Crtime = 0\<rparr>,
           entries = None, contents = Some [1, 2, 3, 4, 5, 0, 0 :: byte] \<rparr>"
  have s: "SetAttributes small_heap 7 sample_file (Some 3) None (Some 42) = Inr ?a"
    "SetAttributes small_heap 7 sample_file (Some 7) (Some 384) None = Inr ?b"
    by (simp_all add: SetAttributes_def truncate_to_def make_bytes_def append_bytes_def
        small_heap_def sample_file_def len_def slice_to_def append_slice_def Let_def
        numeral_2_eq_2)
  have n: "SetAttributes small_heap 7 sample_file None None None =
     Inr \<lparr> dir = False, linkCount = 1,
           attributes = \<lparr>Size = 5, Mode = 420, Mtime = 7, Crtime = 0\<rparr>,
           entries = None, contents = Some [1, 2, 3, 4, 5] \<rparr>"
    by (simp add: SetAttributes_def sample_file_def)
  have l: "len (contents sample_file) = 5" by (simp add: sample_file_def len_def)
  have big: "0 \<le> sint (2000 :: uint64) \<and> len (contents sample_file) < unat (2000 :: uint64)
      \<and> \<not> can_grow small_heap (len (contents sample_file)) (unat (2000 :: uint64))"
    and nb: "\<not> small_heap (unat (2000 :: uint64) - len (contents sample_file))"
    by (simp_all add: l can_grow_def small_heap_def)
  have mid: "0 \<le> sint (1025 :: uint64) \<and> len (contents sample_file) < unat (1025 :: uint64)
      \<and> \<not> can_grow small_heap (len (contents sample_file)) (unat (1025 :: uint64))"
    and mb: "small_heap (unat (1025 :: uint64) - len (contents sample_file))"
    by (simp_all add: l can_grow_def small_heap_def)
  from SetAttributes_result [of small_heap 7 sample_file "Some 3" None "Some 42" ?a] s(1)
  have "0 \<le> sint (3 :: uint64)
      \<and> elems (contents ?a) = take (unat (3 :: uint64)) (elems (contents sample_file))
        @ replicate (unat (3 :: uint64) - len (contents sample_file)) 0"
    by simp
  moreover from SetAttributes_result [of small_heap 7 sample_file "Some 7" "Some 384" None ?b] s(2)
  have "0 \<le> sint (7 :: uint64)
      \<and> elems (contents ?b) = take (unat (7 :: uint64)) (elems (contents sample_file))
        @ replicate (unat (7 :: uint64) - len (contents sample_file)) 0"
    by simp
  moreover have "SetAttributes small_heap 7 sample_file (Some 2000) None None
      = Inl MakesliceLenOutOfRange"
  proof -
    from SetAttributes_result [of small_heap 7 sample_file "Some 2000" None None] big
    have "SetAttributes small_heap 7 sample_file (Some 2000) None None =
        Inl (if small_heap (unat (2000 :: uint64) - len (contents sample_file))
             then GrowsliceLenOutOfRange else MakesliceLenOutOfRange)"
      by blast
    then show ?thesis by (simp only: nb if_False)
  qed
  moreover have "SetAttributes small_heap 7 sample_file (Some 1025) None None
      = Inl GrowsliceLenOutOfRange"
  proof -
    from SetAttributes_result [of small_heap 7 sample_file "Some 1025" None None] mid
    have "SetAttributes small_heap 7 sample_file (Some 1025) None None =
        Inl (if small_heap (unat (1025 :: uint64) - len (contents sample_file))
             then GrowsliceLenOutOfRange else MakesliceLenOutOfRange)"
      by blast
    then show ?thesis by (simp only: mb if_True)
  qed
  ultimately show ?thesis using s n big nb mid mb by simp
qed

subsection \<open>SetAttributes on a directory\<close>

lemma checkInvariants_file:
  "\<not> dir node \<Longrightarrow> checkInvariants node \<noteq> Some NonNilContentsInDirectory"
  by (simp add: checkInvariants_def)

lemma checkInvariants_file_iff:
  "\<not> dir node \<Longrightarrow>
     checkInvariants node = None \<longleftrightarrow>
       0 \<le> linkCount node
     \<and> Mode (attributes node) AND NOT (ModePerm OR ModeDir) = 0
     \<and> Mode (attributes node) AND ModeDir \<noteq> ModeDir
     \<and> entries node = None
     \<and> Size (attributes node) = of_nat (len (contents node))"
  by (auto simp: checkInvariants_def)

lemma checkInvariants_dir_contents:
  "dir node \<Longrightarrow> contents node \<noteq> None \<Longrightarrow> checkInvariants node \<noteq> None"
  by (simp add: checkInvariants_def)

lemma checkInvariants_dir_contents_exact:
  "dir node \<Longrightarrow> contents node \<noteq> None \<Longrightarrow> 0 \<le> linkCount node
   \<Longrightarrow> Mode (attributes node) AND NOT (ModePerm OR ModeDir) = 0
   \<Longrightarrow> Mode (attributes node) AND ModeDir = ModeDir
   \<Longrightarrow> checkInvariants node = Some NonNilContentsInDirectory"
  by (simp add: checkInvariants_def)

lemma checkInvariants_None:
  assumes "checkInvariants node = None"
  shows "0 \<le> linkCount node" "Mode (attributes node) AND NOT (ModePerm OR ModeDir) = 0"
    "dir node = (Mode (attributes node) AND ModeDir = ModeDir)"
  using assms by (auto simp: checkInvariants_def split: if_splits)

lemma Unlock_Inr: "Unlock node = Inr node' \<longleftrightarrow> checkInvariants node = None \<and> node' = node"
  by (auto simp: Unlock_def split: option.splits)

lemma Unlock_Inl: "Unlock node = Inl pn \<longleftrightarrow> checkInvariants node = Some pn"
  by (auto simp: Unlock_def split: option.splits)

text \<open>With size zero the contents of a directory stay nil: \<open>nil[:0]\<close> is nil.\<close>

lemma SetAttributes_directory_size_zero:
  assumes "contents node = None" "SetAttributes can_alloc now node (Some 0) mode mtime = Inr node'"
  shows "contents node' = None"
proof -
  from SetAttributes_post [OF assms(2)]
  have "len (contents node') = 0"
    and "elems (contents node') =
           take (unat (0 :: uint64)) (elems (contents node))
           @ replicate (unat (0 :: uint64) - len (contents node)) 0"
    by simp_all
  let ?in1 = "node\<lparr>attributes := (attributes node)\<lparr>Mtime := now\<rparr>\<rparr>"
  have "truncate_to can_alloc ?in1 0 =
      Inr (?in1\<lparr>contents := None, attributes := (attributes ?in1)\<lparr>Size := 0\<rparr>\<rparr>)"
    using truncate_to_eq [of 0 can_alloc ?in1] assms(1) by simp
  with assms(2) show ?thesis
    by (auto simp: SetAttributes_unfold)
qed

text \<open>A file node that passes \<open>checkInvariants\<close> passes it again after \<open>SetAttributes\<close>.\<close>

lemma SetAttributes_file_invariants:
  assumes f: "\<not> dir fnode" and ok: "checkInvariants fnode = None"
    and m: "\<forall>m. mode = Some m
              \<longrightarrow> m AND NOT (ModePerm OR ModeDir) = 0 \<and> m AND ModeDir \<noteq> ModeDir"
    and r: "SetAttributes can_alloc now fnode newsize mode mtime = Inr fnode'"
  shows "checkInvariants fnode' = None"
proof -
  note p = SetAttributes_post [OF r]
  from ok f have k: "0 \<le> linkCount fnode"
    "Mode (attributes fnode) AND NOT (ModePerm OR ModeDir) = 0"
    "Mode (attributes fnode) AND ModeDir \<noteq> ModeDir"
    "entries fnode = None"
    "Size (attributes fnode) = of_nat (len (contents fnode))"
    by (simp_all add: checkInvariants_file_iff)
  from p f have f': "\<not> dir fnode'" by simp
  have md: "Mode (attributes fnode') AND NOT (ModePerm OR ModeDir) = 0
      \<and> Mode (attributes fnode') AND ModeDir \<noteq> ModeDir"
  proof (cases mode)
    case None
    with p k show ?thesis by simp
  next
    case (Some x)
    with p m show ?thesis by simp
  qed
  have sz: "Size (attributes fnode') = of_nat (len (contents fnode'))"
  proof (cases newsize)
    case None
    with p k show ?thesis by simp
  next
    case (Some x)
    with p have "Size (attributes fnode') = x" "len (contents fnode') = unat x" by simp_all
    then show ?thesis by simp
  qed
  from p k md sz show ?thesis
    by (simp add: checkInvariants_file_iff [OF f'])
qed

text \<open>
  Claim C10. \<open>SetAttributes\<close> looks at no kind. On a directory, whose contents are nil,
  a call with a size other than zero that returns leaves contents that are not nil (the
  padding of \<open>size\<close> zero bytes), so \<open>checkInvariants\<close> panics on the node it returns and
  the release of the exclusive lock ends the process; when the directory passed
  \<open>checkInvariants\<close> before and no mode is given, the panic is
  \<open>Non-nil contents in a directory\<close>. A call under the lock therefore never comes back.
  \<open>SetAttributes\<close> itself returns exactly when the size fits Go's \<open>int\<close> and the runtime
  provides the padding. On a file node no call of \<open>SetAttributes\<close> leads to that panic, and
  a file node that passes \<open>checkInvariants\<close> passes it again at the release of the lock,
  whatever the size, when the mode, if given, is a mode of a file.
\<close>

theorem SetAttributes_on_directory:
  "dir node \<Longrightarrow> contents node = None \<Longrightarrow> sz \<noteq> 0 \<Longrightarrow>
     (SetAttributes can_alloc now node (Some sz) mode mtime = Inr node' \<longrightarrow>
        contents node' = Some (replicate (unat sz) 0)
      \<and> checkInvariants node' \<noteq> None
      \<and> (\<exists>pn. Unlock node' = Inl pn)
      \<and> (checkInvariants node = None \<and> mode = None
           \<longrightarrow> Unlock node' = Inl NonNilContentsInDirectory))
   \<and> (\<forall>r. SetAttributes_locked can_alloc now node (Some sz) mode mtime \<noteq> Inr r)
   \<and> ((\<exists>r. SetAttributes can_alloc now node (Some sz) mode mtime = Inr r) \<longleftrightarrow>
        0 \<le> sint sz \<and> can_grow can_alloc (len (contents node)) (unat sz))
   \<and> (\<not> dir fnode \<and> SetAttributes can_alloc now fnode fsize fmode fmtime = Inr fnode'
        \<longrightarrow> checkInvariants fnode' \<noteq> Some NonNilContentsInDirectory)
   \<and> (\<not> dir fnode \<and> checkInvariants fnode = None
        \<and> (\<forall>m. fmode = Some m
              \<longrightarrow> m AND NOT (ModePerm OR ModeDir) = 0 \<and> m AND ModeDir \<noteq> ModeDir)
        \<and> SetAttributes can_alloc now fnode fsize fmode fmtime = Inr fnode'
        \<longrightarrow> Unlock fnode' = Inr fnode')"
proof -
  assume d: "dir node" and c: "contents node = None" and nz: "sz \<noteq> 0"
  from nz have pos: "0 < unat sz" by (simp add: unat_gt_0)
  have l0: "len (contents node) = 0" using c by (simp add: len_def)
  have post: "contents node' = Some (replicate (unat sz) 0)
      \<and> checkInvariants node' \<noteq> None
      \<and> (checkInvariants node = None \<and> mode = None
           \<longrightarrow> checkInvariants node' = Some NonNilContentsInDirectory)"
    if r: "SetAttributes can_alloc now node (Some sz) mode mtime = Inr node'" for node'
  proof -
    note p = SetAttributes_post [OF r]
    from p have e: "elems (contents node') = replicate (unat sz) 0"
      and ln: "len (contents node') = unat sz"
      using c by (simp_all add: len_def)
    have cn: "contents node' = Some (replicate (unat sz) 0)"
    proof (cases "contents node'")
      case None
      with ln pos show ?thesis by (simp add: len_def)
    next
      case (Some x)
      with e show ?thesis by simp
    qed
    from p d have dn: "dir node'" by simp
    have "checkInvariants node' = Some NonNilContentsInDirectory"
      if ok: "checkInvariants node = None" and m: "mode = None"
    proof -
      note k = checkInvariants_None [OF ok]
      from p m have "linkCount node' = linkCount node"
        "Mode (attributes node') = Mode (attributes node)"
        by simp_all
      with k d show ?thesis
        using checkInvariants_dir_contents_exact [OF dn] cn by simp
    qed
    with cn checkInvariants_dir_contents [OF dn] show ?thesis by simp
  qed
  have unl: "contents node' = Some (replicate (unat sz) 0)
      \<and> checkInvariants node' \<noteq> None
      \<and> (\<exists>pn. Unlock node' = Inl pn)
      \<and> (checkInvariants node = None \<and> mode = None
           \<longrightarrow> Unlock node' = Inl NonNilContentsInDirectory)"
    if r: "SetAttributes can_alloc now node (Some sz) mode mtime = Inr node'"
    using post [OF r] by (auto simp: Unlock_Inl)
  have locked: "SetAttributes_locked can_alloc now node (Some sz) mode mtime \<noteq> Inr r" for r
  proof (cases "SetAttributes can_alloc now node (Some sz) mode mtime")
    case (Inl pn)
    then show ?thesis by (simp add: SetAttributes_locked_def)
  next
    case (Inr n2)
    from post [OF Inr] have "checkInvariants n2 \<noteq> None" by simp
    with Inr show ?thesis by (simp add: SetAttributes_locked_def Unlock_Inr)
  qed
  have ret: "(\<exists>r. SetAttributes can_alloc now node (Some sz) mode mtime = Inr r) \<longleftrightarrow>
        0 \<le> sint sz \<and> can_grow can_alloc (len (contents node)) (unat sz)"
    using pos by (simp add: SetAttributes_returns l0)
  have fpart: "checkInvariants fnode' \<noteq> Some NonNilContentsInDirectory"
    if f: "\<not> dir fnode"
      and r: "SetAttributes can_alloc now fnode fsize fmode fmtime = Inr fnode'"
  proof -
    from SetAttributes_kind [OF r] f show ?thesis by (simp add: checkInvariants_file)
  qed
  have fok: "Unlock fnode' = Inr fnode'"
    if "\<not> dir fnode" "checkInvariants fnode = None"
      "\<forall>m. fmode = Some m
              \<longrightarrow> m AND NOT (ModePerm OR ModeDir) = 0 \<and> m AND ModeDir \<noteq> ModeDir"
      "SetAttributes can_alloc now fnode fsize fmode fmtime = Inr fnode'"
    using SetAttributes_file_invariants [OF that] by (simp add: Unlock_Inr)
  from unl locked ret fpart fok show ?thesis by blast
qed

theorem SetAttributes_on_directory_witness:
  "dir empty_dir \<and> contents empty_dir = None \<and> (3 :: uint64) \<noteq> 0
   \<and> checkInvariants empty_dir = None
   \<and> SetAttributes small_heap 7 empty_dir (Some 3) None None =
       Inr \<lparr> dir = True, linkCount = 1,
             attributes = \<lparr>Size = 3, Mode = ModeDir OR 493, Mtime = 7, Crtime = 0\<rparr>,
             entries = None, contents = Some [0, 0, 0] \<rparr>
   \<and> 0 \<le> sint (3 :: uint64) \<and> can_grow small_heap (len (contents empty_dir)) (unat (3 :: uint64))
   \<and> Unlock
         \<lparr> dir = True, linkCount = 1,
           attributes = \<lparr>Size = 3, Mode = ModeDir OR 493, Mtime = 7, Crtime = 0\<rparr>,
           entries = None, contents = Some [0, 0, 0] \<rparr>
       = Inl NonNilContentsInDirectory
   \<and> SetAttributes_locked small_heap 7 empty_dir (Some 3) None None
       = Inl NonNilContentsInDirectory
   \<and> \<not> dir sample_file \<and> checkInvariants sample_file = None
   \<and> SetAttributes small_heap 7 sample_file (Some 7) None None =
       Inr \<lparr> dir = False, linkCount = 1,
             attributes = \<lparr>Size = 7, Mode = 420, Mtime = 7, Crtime = 0\<rparr>,
             entries = None, contents = Some [1, 2, 3, 4, 5, 0, 0] \<rparr>
   \<and> Unlock
         \<lparr> dir = False, linkCount = 1,
           attributes = \<lparr>Size = 7, Mode = 420, Mtime = 7, Crtime = 0\<rparr>,
           entries = None, contents = Some [1, 2, 3, 4, 5, 0, 0] \<rparr>
       = Inr \<lparr> dir = False, linkCount = 1,
             attributes = \<lparr>Size = 7, Mode = 420, Mtime = 7, Crtime = 0\<rparr>,
             entries = None, contents = Some [1, 2, 3, 4, 5, 0, 0] \<rparr>"
proof -
  let ?d = "\<lparr> dir = True, linkCount = 1,
             attributes = \<lparr>Size = 3, Mode = ModeDir OR 493, Mtime = 7, Crtime = 0\<rparr>,
             entries = None, contents = Some [0, 0, 0 :: byte] \<rparr>"
  let ?f = "\<lparr> dir = False, linkCount = 1,
             attributes = \<lparr>Size = 7, Mode = 420, Mtime = 7, Crtime = 0\<rparr>,
             entries = None, contents = Some [1, 2, 3, 4, 5, 0, 0 :: byte] \<rparr>"
  have d: "dir empty_dir" and c: "contents empty_dir = None"
    by (simp_all add: empty_dir_def newInode_def dir_attrs_def ModeDir_def)
  have nz: "(3 :: uint64) \<noteq> 0" by simp
  have ok: "checkInvariants empty_dir = None"
    by (simp add: checkInvariants_def empty_dir_def newInode_def dir_attrs_def ModeDir_def
        ModePerm_def len_def)
  have s: "SetAttributes small_heap 7 empty_dir (Some 3) None None = Inr ?d"
    by (simp add: SetAttributes_def truncate_to_def make_bytes_def append_bytes_def
        small_heap_def empty_dir_def newInode_def dir_attrs_def
        ModeDir_def len_def slice_to_def append_slice_def Let_def numeral_3_eq_3)
  have g: "0 \<le> sint (3 :: uint64)"
    "can_grow small_heap (len (contents empty_dir)) (unat (3 :: uint64))"
    by (simp_all add: c len_def can_grow_def small_heap_def)
  have f: "\<not> dir sample_file" by (simp add: sample_file_def)
  have fk: "checkInvariants sample_file = None"
    by (simp add: checkInvariants_def sample_file_def ModeDir_def ModePerm_def len_def)
  have sf: "SetAttributes small_heap 7 sample_file (Some 7) None None = Inr ?f"
    by (simp add: SetAttributes_def truncate_to_def make_bytes_def append_bytes_def
        small_heap_def sample_file_def len_def slice_to_def
        append_slice_def Let_def numeral_2_eq_2)
  note t = SetAttributes_on_directory [OF d c nz,
      of small_heap 7 None None ?d sample_file "Some 7" None None ?f]
  from t s ok have u: "Unlock ?d = Inl NonNilContentsInDirectory" by blast
  from t f fk sf have uf: "Unlock ?f = Inr ?f" by blast
  have lk: "SetAttributes_locked small_heap 7 empty_dir (Some 3) None None
       = Inl NonNilContentsInDirectory"
    using s u by (simp add: SetAttributes_locked_def)
  show ?thesis using d c nz ok s g u lk f fk sf uf by blast
qed

end
